theory Spec2Isabelle
  imports Complex_Main "HOL-Library.List_Lexorder" "HOL-Library.Char_ord"
begin

section \<open>JavaScript values and the built-ins the core relies on\<close>

text \<open>
  A JSON-like value, as \<^verbatim>\<open>JSON.parse\<close> produces it. An object is the list of its
  own enumerable entries in \<^verbatim>\<open>Object.entries\<close> order (keys are distinct in a
  well-formed object). Numbers are the finite doubles, taken as rationals; strings are
  ASCII (one \<^typ>\<open>char\<close> per UTF-16 code unit).
\<close>

datatype json =
    JNull
  | JBool bool
  | JNum rat
  | JStr string
  | JArr "json list"
  | JObj "(string \<times> json) list"

text \<open>Digits of \<^verbatim>\<open>Number.prototype.toString(radix)\<close> for a non-negative integer.\<close>

definition digitChar :: "nat \<Rightarrow> char" where
  "digitChar d = ''0123456789abcdefghijklmnopqrstuvwxyz'' ! d"

text \<open>
  \<^verbatim>\<open>n.toString(radix)\<close> on a non-negative integer \<open>n\<close>; JavaScript admits
  \<open>2 \<le> radix \<le> 36\<close>, and the code uses 36 (ids) and 10 (template literals).
\<close>

function numToString :: "nat \<Rightarrow> nat \<Rightarrow> string" where
  "numToString radix n =
     (if n < radix \<or> radix < 2 then [digitChar n]
      else numToString radix (n div radix) @ [digitChar (n mod radix)])"
  by pat_completeness auto
termination
  by (relation "measure snd") auto

declare numToString.simps [simp del]

text \<open>
  \<^verbatim>\<open>xs.slice(0, end)\<close> for an integer \<open>end\<close>: a negative \<open>end\<close> counts from the
  end of the array.
\<close>

definition slice0 :: "'a list \<Rightarrow> int \<Rightarrow> 'a list" where
  "slice0 xs stop =
     (let len = int (length xs);
          final = (if stop < 0 then max (len + stop) 0 else min stop len)
      in take (nat final) xs)"

section \<open>VirtualObjectExcavator\<close>

text \<open>
  A virtual object is a JavaScript object with a few mandatory properties and
  category-specific ones; an absent property is \<open>None\<close>. The properties are the ones
  the excavator writes and the score engine reads.
\<close>

record virtualObject =
  vo_id :: string
  vo_category :: "string option"
  vo_path :: string
  vo_type :: "string option"
  vo_fields :: "(string \<times> string) list option"
  vo_elementTypes :: "(string \<times> nat) list option"
  vo_valuePreview :: "json option"
  vo_signature :: "string option"
  vo_selector :: "string option"
  vo_ctor :: "string option"

record relationship =
  rel_from :: string
  rel_to :: string
  rel_kind :: string
  rel_name :: "string option"
  rel_index :: "nat option"

record excavationResult =
  virtualObjects :: "virtualObject list"
  relationships :: "relationship list"
  domSheets :: "string list option"

text \<open>
  The options of an excavator. The two limits are JavaScript numbers that the
  constructor takes as they are given; the model takes them as integers, of either sign.
\<close>

record excavator =
  maxDepth :: int
  maxArraySample :: int
  includeDom :: bool

text \<open>
  The state a walk threads: the module-level counter \<^verbatim>\<open>nextId\<close>, the two output
  arrays, and a ghost log \<open>calls\<close> of the invocations of \<^verbatim>\<open>_walkValue\<close> (the id and
  the depth each is entered with). The log is never read by the walk.
\<close>

record walkState =
  nextId :: nat
  vList :: "virtualObject list"
  relList :: "relationship list"
  calls :: "(string \<times> int) list"

definition genId :: "string \<Rightarrow> walkState \<Rightarrow> string \<times> walkState" where
  "genId prefix st =
     (let n = nextId st + 1
      in (prefix @ ''_'' @ numToString 36 n, st\<lparr>nextId := n\<rparr>))"

fun typeOf :: "json \<Rightarrow> string" where
  "typeOf JNull = ''null''"
| "typeOf (JArr xs) = ''array''"
| "typeOf (JObj kvs) = ''object''"
| "typeOf (JStr s) = ''string''"
| "typeOf (JNum x) = ''number''"
| "typeOf (JBool b) = ''boolean''"

fun preview :: "json \<Rightarrow> json" where
  "preview JNull = JNull"
| "preview (JNum x) = JNum x"
| "preview (JBool b) = JBool b"
| "preview (JStr s) = (if length s \<le> 64 then JStr s else JStr (take 61 s @ ''...''))"
| "preview v = JNull"

text \<open>
  \<^verbatim>\<open>fields[k] = typeOf(v)\<close> over the entries, on a fresh object literal: assigning a
  string to the key \<^verbatim>\<open>__proto__\<close> goes to the prototype setter, which ignores it.
\<close>

definition fieldTypes :: "(string \<times> json) list \<Rightarrow> (string \<times> string) list" where
  "fieldTypes entries = map (\<lambda>(k, v). (k, typeOf v)) (filter (\<lambda>(k, v). k \<noteq> ''__proto__'') entries)"

text \<open>\<^verbatim>\<open>elementTypes[et] = (elementTypes[et] || 0) + 1\<close>: keys keep their first-insertion order.\<close>

fun bump :: "string \<Rightarrow> (string \<times> nat) list \<Rightarrow> (string \<times> nat) list" where
  "bump et [] = [(et, 1)]"
| "bump et ((k, c) # rest) = (if k = et then (k, c + 1) # rest else (k, c) # bump et rest)"

definition elementHistogram :: "json list \<Rightarrow> (string \<times> nat) list" where
  "elementHistogram sampled = foldl (\<lambda>h el. bump (typeOf el) h) [] sampled"

definition emptyVO :: "string \<Rightarrow> string \<Rightarrow> virtualObject" where
  "emptyVO i p =
     \<lparr>vo_id = i, vo_category = None, vo_path = p, vo_type = None, vo_fields = None,
      vo_elementTypes = None, vo_valuePreview = None, vo_signature = None,
      vo_selector = None, vo_ctor = None\<rparr>"

lemma size_slice0: "size_list f (slice0 xs n) \<le> size_list f xs"
proof -
  have "size_list f (take k xs) \<le> size_list f xs" for k
  proof (induction xs arbitrary: k)
    case Nil
    show ?case by simp
  next
    case (Cons x xs)
    show ?case using Cons [of "k - 1"] by (cases k) simp_all
  qed
  then show ?thesis by (simp add: slice0_def Let_def)
qed

function walkValue :: "excavator \<Rightarrow> json \<Rightarrow> string \<Rightarrow> string \<Rightarrow> int \<Rightarrow> walkState \<Rightarrow> walkState"
  and walkFields :: "excavator \<Rightarrow> (string \<times> json) list \<Rightarrow> string \<Rightarrow> string \<Rightarrow> int \<Rightarrow> walkState \<Rightarrow> walkState"
  and walkElements :: "excavator \<Rightarrow> json list \<Rightarrow> nat \<Rightarrow> string \<Rightarrow> string \<Rightarrow> int \<Rightarrow> walkState \<Rightarrow> walkState"
where
  "walkValue ex v i path depth st0 =
     (let st = st0\<lparr>calls := calls st0 @ [(i, depth)]\<rparr> in
      if depth > maxDepth ex then st
      else
        (case v of
           JObj entries \<Rightarrow>
             walkFields ex entries i path depth
               (st\<lparr>vList := vList st @
                  [(emptyVO i path)\<lparr>vo_category := Some ''struct'', vo_type := Some ''object'',
                     vo_fields := Some (fieldTypes entries)\<rparr>]\<rparr>)
         | JArr els \<Rightarrow>
             (let sampled = slice0 els (maxArraySample ex) in
              walkElements ex sampled 0 i path depth
                (st\<lparr>vList := vList st @
                   [(emptyVO i path)\<lparr>vo_category := Some ''struct'', vo_type := Some ''array'',
                      vo_elementTypes := Some (elementHistogram sampled)\<rparr>]\<rparr>))
         | _ \<Rightarrow>
             st\<lparr>vList := vList st @
               [(emptyVO i path)\<lparr>vo_category := Some ''value'', vo_type := Some (typeOf v),
                  vo_valuePreview := Some (preview v)\<rparr>]\<rparr>))"
| "walkFields ex [] i path depth st = st"
| "walkFields ex ((k, v) # rest) i path depth st =
     (let (childId, st1) = genId ''vo'' st;
          st2 = st1\<lparr>relList := relList st1 @
                  [\<lparr>rel_from = i, rel_to = childId, rel_kind = ''field'',
                    rel_name = Some k, rel_index = None\<rparr>]\<rparr>;
          st3 = walkValue ex v childId (path @ ''.'' @ k) (depth + 1) st2
      in walkFields ex rest i path depth st3)"
| "walkElements ex [] idx i path depth st = st"
| "walkElements ex (el # rest) idx i path depth st =
     (let (childId, st1) = genId ''vo'' st;
          st2 = st1\<lparr>relList := relList st1 @
                  [\<lparr>rel_from = i, rel_to = childId, rel_kind = ''element'',
                    rel_name = None, rel_index = Some idx\<rparr>]\<rparr>;
          st3 = walkValue ex el childId (path @ ''['' @ numToString 10 idx @ '']'') (depth + 1) st2
      in walkElements ex rest (idx + 1) i path depth st3)"
  by pat_completeness auto
termination
proof (relation "measure (\<lambda>x. case x of
        Inl (ex, v, i, path, depth, st) \<Rightarrow> 2 * size v + 1
      | Inr (Inl (ex, kvs, i, path, depth, st)) \<Rightarrow> 2 * size_list (size_prod (\<lambda>_. 0) size) kvs
      | Inr (Inr (ex, els, idx, i, path, depth, st)) \<Rightarrow> 2 * size_list size els)",
    goal_cases)
  case (2 ex v i path depth st0 x x5 xa)
  then show ?case
    using size_slice0 [of size x5 "maxArraySample ex"] by simp
qed simp_all

declare walkValue.simps [simp del]

text \<open>JavaScript truthiness of a JSON value (the left operand of \<^verbatim>\<open>input && ...\<close>).\<close>

fun truthy :: "json \<Rightarrow> bool" where
  "truthy JNull = False"
| "truthy (JBool b) = b"
| "truthy (JNum x) = (x \<noteq> 0)"
| "truthy (JStr s) = (s \<noteq> [])"
| "truthy (JArr xs) = True"
| "truthy (JObj kvs) = True"

text \<open>
  The own property \<open>k\<close> of a non-null value: \<open>Some v\<close> exactly when
  \<^verbatim>\<open>Object.prototype.hasOwnProperty.call(x, k)\<close> holds, and then \<open>v\<close> is \<^verbatim>\<open>x[k]\<close>.
  Arrays and strings own their indices and \<^verbatim>\<open>length\<close>; numbers and booleans own nothing.
\<close>

fun ownProperty :: "json \<Rightarrow> string \<Rightarrow> json option" where
  "ownProperty (JObj kvs) k = map_of kvs k"
| "ownProperty (JArr xs) k =
     (if k = ''length'' then Some (JNum (of_nat (length xs)))
      else map_of (zip (map (numToString 10) [0..<length xs]) xs) k)"
| "ownProperty (JStr s) k =
     (if k = ''length'' then Some (JNum (of_nat (length s)))
      else map_of (zip (map (numToString 10) [0..<length s]) (map (\<lambda>c. JStr [c]) s)) k)"
| "ownProperty v k = None"

text \<open>
  \<^verbatim>\<open>excavate(input)\<close>, from the counter value \<open>n\<close> the module holds when it is called.
  \<open>excavateWalk\<close> is the state the walk ends in; \<open>excavate\<close> returns the result object
  and the counter the module is left with. Logging is not modelled.
\<close>

definition excavateWalk :: "excavator \<Rightarrow> json \<Rightarrow> nat \<Rightarrow> walkState" where
  "excavateWalk ex input n =
     (let root = (if truthy input
                  then (case ownProperty input ''value'' of Some v \<Rightarrow> v | None \<Rightarrow> input)
                  else input);
          (rootId, st) = genId ''vo'' \<lparr>nextId = n, vList = [], relList = [], calls = []\<rparr>
      in walkValue ex root rootId ''#'' 0 st)"

definition excavate :: "excavator \<Rightarrow> json \<Rightarrow> nat \<Rightarrow> excavationResult \<times> nat" where
  "excavate ex input n =
     (let st = excavateWalk ex input n
      in (\<lparr>virtualObjects = vList st, relationships = relList st, domSheets = Some []\<rparr>,
          nextId st))"

text \<open>
  \<open>voId k\<close> is the id \<^verbatim>\<open>genId("vo")\<close> returns when it advances the counter to \<open>k\<close>.
\<close>

definition voId :: "nat \<Rightarrow> string" where
  "voId k = ''vo'' @ ''_'' @ numToString 36 k"

section \<open>ExcavationSessionManager and the Persistence collaborator\<close>

record metrics =
  m_virtualObjects :: nat
  m_relationships :: nat
  m_domSheets :: nat

record snapshot =
  snap_id :: string
  snap_label :: string
  snap_capturedAt :: string
  snap_metrics :: metrics
  snap_result :: excavationResult

record summary =
  totalVirtualObjects :: nat
  totalRelationships :: nat
  summaryDomSheets :: nat
  driftEvents :: nat

text \<open>The metadata of a session is opaque to the core: its JSON text.\<close>

record session =
  sess_id :: string
  sess_createdAt :: string
  sess_metadata :: string
  sess_snapshots :: "snapshot list"
  sess_summary :: summary

text \<open>
  The two tables of \<^verbatim>\<open>db/schema.sql\<close> that the session manager reaches, rows in insertion
  order. \<^verbatim>\<open>metrics_json\<close> and \<^verbatim>\<open>result_json\<close> hold the values whose JSON text the
  columns store (\<^verbatim>\<open>JSON.parse\<close> of \<^verbatim>\<open>JSON.stringify\<close> gives the value back).
\<close>

record sessionRow =
  session_id :: string
  created_at_iso :: string
  metadata_json :: string

record snapshotRow =
  row_snapshot_id :: string
  row_session_id :: string
  row_label :: string
  row_captured_at_iso :: string
  row_metrics_json :: metrics
  row_result_json :: excavationResult

record persistence =
  sessionsTable :: "sessionRow list"
  snapshotsTable :: "snapshotRow list"

datatype error =
    UnknownSession string
  | SqliteConstraint string

text \<open>\<^verbatim>\<open>INSERT OR IGNORE\<close> on the primary key, then \<^verbatim>\<open>UPDATE ... SET metadata_json\<close>.\<close>

definition saveSession :: "persistence \<Rightarrow> session \<Rightarrow> persistence" where
  "saveSession p s =
     (let inserted =
            (if sess_id s \<in> set (map session_id (sessionsTable p)) then sessionsTable p
             else sessionsTable p @
               [\<lparr>session_id = sess_id s, created_at_iso = sess_createdAt s,
                 metadata_json = sess_metadata s\<rparr>]);
          updated =
            map (\<lambda>r. if session_id r = sess_id s then r\<lparr>metadata_json := sess_metadata s\<rparr> else r)
              inserted
      in p\<lparr>sessionsTable := updated\<rparr>)"

text \<open>
  \<^verbatim>\<open>INSERT INTO snapshots\<close>: \<^verbatim>\<open>snapshot_id\<close> is the primary key and \<^verbatim>\<open>session_id\<close>
  a foreign key into \<^verbatim>\<open>sessions\<close>; a violated constraint throws.
\<close>

definition saveSnapshot :: "persistence \<Rightarrow> string \<Rightarrow> snapshot \<Rightarrow> error + persistence" where
  "saveSnapshot p sessionId snap =
     (if snap_id snap \<in> set (map row_snapshot_id (snapshotsTable p))
      then Inl (SqliteConstraint ''UNIQUE constraint failed: snapshots.snapshot_id'')
      else if sessionId \<notin> set (map session_id (sessionsTable p))
      then Inl (SqliteConstraint ''FOREIGN KEY constraint failed'')
      else Inr (p\<lparr>snapshotsTable := snapshotsTable p @
             [\<lparr>row_snapshot_id = snap_id snap, row_session_id = sessionId,
               row_label = snap_label snap, row_captured_at_iso = snap_capturedAt snap,
               row_metrics_json = snap_metrics snap, row_result_json = snap_result snap\<rparr>]\<rparr>))"

text \<open>
  \<^verbatim>\<open>SELECT ... WHERE session_id = ? ORDER BY captured_at_iso ASC\<close> (text compares bytewise;
  rows with equal keys are taken in insertion order), each row pushed onto the log.
\<close>

definition hydrateSessionSnapshots :: "persistence \<Rightarrow> session \<Rightarrow> session" where
  "hydrateSessionSnapshots p s =
     (let rows = sort_key row_captured_at_iso
                   (filter (\<lambda>r. row_session_id r = sess_id s) (snapshotsTable p))
      in s\<lparr>sess_snapshots := sess_snapshots s @
             map (\<lambda>row. \<lparr>snap_id = row_snapshot_id row, snap_label = row_label row,
                          snap_capturedAt = row_captured_at_iso row,
                          snap_metrics = row_metrics_json row,
                          snap_result = row_result_json row\<rparr>) rows\<rparr>)"

record sessionManager =
  sm_maxDepth :: int
  maxSnapshots :: int
  sessions :: "string \<rightharpoonup> session"
  sm_persistence :: "persistence option"

definition updateSummary :: "session \<Rightarrow> session" where
  "updateSummary s =
     (let (totalVO, totalRel, sheets) =
            foldl (\<lambda>(totalVO, totalRel, sheets) snap.
                     (totalVO + m_virtualObjects (snap_metrics snap),
                      totalRel + m_relationships (snap_metrics snap),
                      sheets + m_domSheets (snap_metrics snap)))
              (0, 0, 0) (sess_snapshots s)
      in s\<lparr>sess_summary := (sess_summary s)\<lparr>totalVirtualObjects := totalVO,
             totalRelationships := totalRel, summaryDomSheets := sheets\<rparr>\<rparr>)"

definition detectDrift :: "session \<Rightarrow> session" where
  "detectDrift s =
     (let snaps = sess_snapshots s in
      if length snaps < 2 then s
      else
        (let latest = snaps ! (length snaps - 1);
             prev = snaps ! (length snaps - 2);
             voDelta = \<bar>int (m_virtualObjects (snap_metrics latest)) -
                         int (m_virtualObjects (snap_metrics prev))\<bar>;
             relDelta = \<bar>int (m_relationships (snap_metrics latest)) -
                          int (m_relationships (snap_metrics prev))\<bar>;
             driftScore = voDelta + relDelta
         in if driftScore > 0
            then s\<lparr>sess_summary := (sess_summary s)\<lparr>driftEvents := driftEvents (sess_summary s) + 1\<rparr>\<rparr>
            else s))"

text \<open>
  \<^verbatim>\<open>startSession(sessionId, metadata)\<close>; \<open>now\<close> is the text \<^verbatim>\<open>new Date().toISOString()\<close>
  gives at the call. Returns the session and the manager after the call.
\<close>

definition startSession ::
  "sessionManager \<Rightarrow> string \<Rightarrow> string \<Rightarrow> string \<Rightarrow> session \<times> sessionManager" where
  "startSession mgr sessionId metadata now =
     (case sessions mgr sessionId of
        Some existing \<Rightarrow> (existing, mgr)
      | None \<Rightarrow>
          (let session0 =
                 \<lparr>sess_id = sessionId, sess_createdAt = now, sess_metadata = metadata,
                  sess_snapshots = [],
                  sess_summary = \<lparr>totalVirtualObjects = 0, totalRelationships = 0,
                                   summaryDomSheets = 0, driftEvents = 0\<rparr>\<rparr>
           in case sm_persistence mgr of
                None \<Rightarrow> (session0, mgr\<lparr>sessions := (sessions mgr)(sessionId \<mapsto> session0)\<rparr>)
              | Some p \<Rightarrow>
                  (let p1 = saveSession p session0;
                       session1 = updateSummary (hydrateSessionSnapshots p1 session0)
                   in (session1,
                       mgr\<lparr>sessions := (sessions mgr)(sessionId \<mapsto> session1),
                           sm_persistence := Some p1\<rparr>))))"

text \<open>
  \<^verbatim>\<open>addSnapshot(sessionId, excavationResult, label)\<close>. The outcome is the thrown error or the
  returned snapshot; the manager is returned in both cases, since a throw of
  \<^verbatim>\<open>saveSnapshot\<close> comes after the session has been updated in memory.
\<close>

definition addSnapshot ::
  "sessionManager \<Rightarrow> string \<Rightarrow> excavationResult \<Rightarrow> string \<Rightarrow> string \<Rightarrow>
   (error + snapshot) \<times> sessionManager" where
  "addSnapshot mgr sessionId excavationResult label now =
     (case sessions mgr sessionId of
        None \<Rightarrow> (Inl (UnknownSession sessionId), mgr)
      | Some session \<Rightarrow>
          (let snapshot =
                 \<lparr>snap_id = sessionId @ '':'' @ numToString 10 (length (sess_snapshots session)),
                  snap_label = label,
                  snap_capturedAt = now,
                  snap_metrics =
                    \<lparr>m_virtualObjects = length (virtualObjects excavationResult),
                     m_relationships = length (relationships excavationResult),
                     m_domSheets = (case domSheets excavationResult of
                                      Some sheets \<Rightarrow> length sheets | None \<Rightarrow> 0)\<rparr>,
                  snap_result = excavationResult\<rparr>;
               pushed = sess_snapshots session @ [snapshot];
               kept = (if int (length pushed) > maxSnapshots mgr then tl pushed else pushed);
               session1 = detectDrift (updateSummary (session\<lparr>sess_snapshots := kept\<rparr>));
               mgr1 = mgr\<lparr>sessions := (sessions mgr)(sessionId \<mapsto> session1)\<rparr>
           in case sm_persistence mgr of
                None \<Rightarrow> (Inr snapshot, mgr1)
              | Some p \<Rightarrow>
                  (case saveSnapshot p (sess_id session1) snapshot of
                     Inl e \<Rightarrow> (Inl e, mgr1)
                   | Inr p1 \<Rightarrow> (Inr snapshot, mgr1\<lparr>sm_persistence := Some p1\<rparr>))))"

text \<open>
  A caller adding snapshots to one session, one call after the other: each entry is the
  result, the label and the clock text of a call. Gives the outcomes in call order and the
  manager after the last call.
\<close>

fun addSnapshots ::
  "sessionManager \<Rightarrow> string \<Rightarrow> (excavationResult \<times> string \<times> string) list \<Rightarrow>
   (error + snapshot) list \<times> sessionManager" where
  "addSnapshots mgr sessionId [] = ([], mgr)"
| "addSnapshots mgr sessionId ((r, label, now) # rest) =
     (let (out, mgr1) = addSnapshot mgr sessionId r label now;
          (outs, mgr2) = addSnapshots mgr1 sessionId rest
      in (out # outs, mgr2))"

section \<open>VirtualObjectScoreEngine\<close>

text \<open>
  \<^verbatim>\<open>JSON.stringify\<close> of a \<^verbatim>\<open>fields\<close> object (string keys, string values), for ASCII
  text: quotes, backslashes and control characters are escaped.
\<close>

definition escapeChar :: "char \<Rightarrow> string" where
  "escapeChar c =
     (if c = CHR 0x22 then [CHR 0x5C, CHR 0x22]
      else if c = CHR 0x5C then [CHR 0x5C, CHR 0x5C]
      else if c = CHR 0x08 then [CHR 0x5C, CHR ''b'']
      else if c = CHR 0x0C then [CHR 0x5C, CHR ''f'']
      else if c = CHR 0x0A then [CHR 0x5C, CHR ''n'']
      else if c = CHR 0x0D then [CHR 0x5C, CHR ''r'']
      else if c = CHR 0x09 then [CHR 0x5C, CHR ''t'']
      else if (of_char c :: nat) < 32
      then [CHR 0x5C, CHR ''u'', CHR ''0'', CHR ''0'',
            digitChar (of_char c div 16), digitChar (of_char c mod 16)]
      else [c])"

definition jsonQuote :: "string \<Rightarrow> string" where
  "jsonQuote s = [CHR 0x22] @ concat (map escapeChar s) @ [CHR 0x22]"

fun joinComma :: "string list \<Rightarrow> string" where
  "joinComma [] = []"
| "joinComma [x] = x"
| "joinComma (x # y # rest) = x @ '','' @ joinComma (y # rest)"

definition stringifyFields :: "(string \<times> string) list \<Rightarrow> string" where
  "stringifyFields fs =
     ''{'' @ joinComma (map (\<lambda>(k, v). jsonQuote k @ '':'' @ jsonQuote v) fs) @ ''}''"

text \<open>\<^verbatim>\<open>String.prototype.toLowerCase\<close> and \<^verbatim>\<open>includes\<close>, on ASCII text.\<close>

definition toLowerCase :: "string \<Rightarrow> string" where
  "toLowerCase s =
     map (\<lambda>c. if CHR ''A'' \<le> c \<and> c \<le> CHR ''Z'' then char_of (of_char c + (32 :: nat)) else c) s"

fun startsWith :: "string \<Rightarrow> string \<Rightarrow> bool" where
  "startsWith s [] = True"
| "startsWith [] (p # ps) = False"
| "startsWith (c # cs) (p # ps) = (c = p \<and> startsWith cs ps)"

fun includesStr :: "string \<Rightarrow> string \<Rightarrow> bool" where
  "includesStr [] sub = (sub = [])"
| "includesStr (c # cs) sub = (startsWith (c # cs) sub \<or> includesStr cs sub)"

record score =
  score_id :: string
  score_category :: string
  stability :: rat
  novelty :: rat
  reuseHint :: string

text \<open>
  The engine: its window and the map from identity key to the timestamps (milliseconds)
  of the key's recorded observations, oldest first.
\<close>

record scoreEngine =
  historyWindow :: int
  objectHistory :: "string \<rightharpoonup> int list"

text \<open>
  \<^verbatim>\<open>Date.now()\<close>: the clock is the sequence of its readings, and \<open>tick\<close> counts the
  readings taken so far. Nothing is assumed about the readings.
\<close>

definition dateNow :: "(nat \<Rightarrow> int) \<Rightarrow> nat \<Rightarrow> int \<times> nat" where
  "dateNow clock tick = (clock tick, tick + 1)"

text \<open>
  \<^verbatim>\<open>x || d\<close> on optional strings (absent and empty are falsy): \<open>orElse\<close> with a string
  default, \<open>orOpt\<close> with another optional string.
\<close>

definition orElse :: "string option \<Rightarrow> string \<Rightarrow> string" where
  "orElse x d = (case x of None \<Rightarrow> d | Some s \<Rightarrow> if s = [] then d else s)"

definition orOpt :: "string option \<Rightarrow> string option \<Rightarrow> string option" where
  "orOpt x y = (case x of None \<Rightarrow> y | Some s \<Rightarrow> if s = [] then y else x)"

definition makeKey :: "virtualObject \<Rightarrow> string" where
  "makeKey vo =
     (let cat = orElse (vo_category vo) ''unknown'';
          sig = (case vo_signature vo of
                   Some sg \<Rightarrow> sg
                 | None \<Rightarrow> stringifyFields (case vo_fields vo of Some fs \<Rightarrow> fs | None \<Rightarrow> []))
      in cat @ '':'' @ sig)"

definition getHistory :: "string \<Rightarrow> scoreEngine \<Rightarrow> int list \<times> scoreEngine" where
  "getHistory key eng =
     (case objectHistory eng key of
        None \<Rightarrow> ([], eng\<lparr>objectHistory := (objectHistory eng)(key \<mapsto> [])\<rparr>)
      | Some hist \<Rightarrow> (hist, eng))"

definition updateHistory ::
  "(nat \<Rightarrow> int) \<Rightarrow> string \<Rightarrow> scoreEngine \<times> nat \<Rightarrow> scoreEngine \<times> nat" where
  "updateHistory clock key = (\<lambda>(eng, tick).
     (let (hist, eng1) = getHistory key eng;
          (now, tick1) = dateNow clock tick;
          pushed = hist @ [now];
          kept = (if int (length pushed) > historyWindow eng1 then tl pushed else pushed)
      in (eng1\<lparr>objectHistory := (objectHistory eng1)(key \<mapsto> kept)\<rparr>, tick1)))"

definition computeStability :: "int list \<Rightarrow> rat" where
  "computeStability hist =
     (if length hist < 2 then 2 / 10
      else
        (let intervals = map (\<lambda>i. hist ! i - hist ! (i - 1)) [1..<length hist];
             avgInterval = of_int (foldl (\<lambda>a b. a + b) 0 intervals) / of_nat (length intervals)
         in max 0 (min 1 (avgInterval / (24 * 60 * 60 * 1000)))))"

definition computeNovelty :: "(nat \<Rightarrow> int) \<Rightarrow> int list \<Rightarrow> nat \<Rightarrow> rat \<times> nat" where
  "computeNovelty clock hist tick =
     (if length hist = 1 then (1, tick)
      else if length hist = 0 then (5 / 10, tick)
      else
        (let lastSeen = hist ! (length hist - 1);
             (now, tick1) = dateNow clock tick;
             ageMs = now - lastSeen
         in (max 0 (min 1 (of_int ageMs / (7 * 24 * 60 * 60 * 1000))), tick1)))"

definition computeReuseHint :: "virtualObject \<Rightarrow> string" where
  "computeReuseHint vo =
     (let name = orElse (orOpt (orOpt (vo_selector vo) (vo_ctor vo)) (vo_category vo)) ''object'';
          lowered = toLowerCase name
      in if includesStr lowered ''button'' then ''ui-action''
         else if vo_category vo = Some ''dom-tag'' \<or> vo_category vo = Some ''dom-motif''
         then ''dom-structure''
         else if vo_category vo = Some ''struct'' \<or> vo_category vo = Some ''api-schema''
         then ''api-schema''
         else ''misc'')"

text \<open>
  One turn of the loop of \<^verbatim>\<open>scoreSnapshot\<close>: the score of \<open>vo\<close>, with the engine and
  the clock after it. \<open>noveltyHistory\<close> is the history array this turn hands to
  \<^verbatim>\<open>_computeNovelty\<close>.
\<close>

definition noveltyHistory :: "scoreEngine \<Rightarrow> virtualObject \<Rightarrow> int list" where
  "noveltyHistory eng vo = fst (getHistory (makeKey vo) eng)"

definition scoreVO ::
  "(nat \<Rightarrow> int) \<Rightarrow> virtualObject \<Rightarrow> scoreEngine \<times> nat \<Rightarrow> score \<times> scoreEngine \<times> nat" where
  "scoreVO clock vo = (\<lambda>(eng, tick).
     (let key = makeKey vo;
          (hist, eng1) = getHistory key eng;
          stab = computeStability hist;
          (nov, tick1) = computeNovelty clock hist tick;
          hint = computeReuseHint vo;
          (eng2, tick2) = updateHistory clock key (eng1, tick1)
      in (\<lparr>score_id = vo_id vo, score_category = orElse (vo_category vo) ''unknown'',
           stability = stab, novelty = nov, reuseHint = hint\<rparr>, eng2, tick2)))"

fun scoreLoop ::
  "(nat \<Rightarrow> int) \<Rightarrow> virtualObject list \<Rightarrow> score list \<Rightarrow> scoreEngine \<times> nat \<Rightarrow>
   score list \<times> scoreEngine \<times> nat" where
  "scoreLoop clock [] scores st = (scores, st)"
| "scoreLoop clock (vo # rest) scores st =
     (let (sc, st1) = scoreVO clock vo st
      in scoreLoop clock rest (scores @ [sc]) st1)"

definition scoreSnapshot ::
  "(nat \<Rightarrow> int) \<Rightarrow> snapshot \<Rightarrow> scoreEngine \<times> nat \<Rightarrow> score list \<times> scoreEngine \<times> nat" where
  "scoreSnapshot clock snap st = scoreLoop clock (virtualObjects (snap_result snap)) [] st"

section \<open>MultiPassEngine\<close>

text \<open>
  The three callbacks are arbitrary JavaScript functions: each may throw (\<open>Inl\<close>) and may
  change the world \<open>'w\<close> outside the engine. Logging is not modelled.
\<close>

record ('r, 'g) runResult =
  shallowResult :: 'r
  deepResults :: "('g \<times> 'r) list"

fun deepLoop ::
  "('i \<Rightarrow> 'g \<Rightarrow> 'w \<Rightarrow> ('e + 'r) \<times> 'w) \<Rightarrow> 'i \<Rightarrow> 'g list \<Rightarrow> ('g \<times> 'r) list \<Rightarrow> 'w \<Rightarrow>
   ('e + ('g \<times> 'r) list) \<times> 'w" where
  "deepLoop deepFn input [] acc w = (Inr acc, w)"
| "deepLoop deepFn input (region # rest) acc w =
     (case deepFn input region w of
        (Inl e, w1) \<Rightarrow> (Inl e, w1)
      | (Inr deep, w1) \<Rightarrow> deepLoop deepFn input rest (acc @ [(region, deep)]) w1)"

definition run ::
  "int \<Rightarrow> 'i \<Rightarrow> ('i \<Rightarrow> 'w \<Rightarrow> ('e + 'r) \<times> 'w) \<Rightarrow> ('i \<Rightarrow> 'g \<Rightarrow> 'w \<Rightarrow> ('e + 'r) \<times> 'w) \<Rightarrow>
   ('r \<Rightarrow> 'w \<Rightarrow> ('e + 'g list) \<times> 'w) option \<Rightarrow> 'w \<Rightarrow> ('e + ('r, 'g) runResult) \<times> 'w" where
  "run maxDeepRegions input shallowFn deepFn regionSelector w =
     (case shallowFn input w of
        (Inl e, w1) \<Rightarrow> (Inl e, w1)
      | (Inr shallow, w1) \<Rightarrow>
          (case (case regionSelector of
                   Some select \<Rightarrow> select shallow w1
                 | None \<Rightarrow> (Inr [], w1)) of
             (Inl e, w2) \<Rightarrow> (Inl e, w2)
           | (Inr regions, w2) \<Rightarrow>
               (let selectedRegions = slice0 regions maxDeepRegions
                in case deepLoop deepFn input selectedRegions [] w2 of
                     (Inl e, w3) \<Rightarrow> (Inl e, w3)
                   | (Inr deeps, w3) \<Rightarrow>
                       (Inr \<lparr>shallowResult = shallow, deepResults = deeps\<rparr>, w3))))"

text \<open>
  Wrappers that run a callback on a world paired with a counter: \<open>counting\<close> adds one to
  the counter at each invocation, \<open>uncounted\<close> leaves it alone.
\<close>

definition counting :: "('w \<Rightarrow> 'a \<times> 'w) \<Rightarrow> nat \<times> 'w \<Rightarrow> 'a \<times> nat \<times> 'w" where
  "counting f = (\<lambda>(c, w). case f w of (r, w1) \<Rightarrow> (r, Suc c, w1))"

definition uncounted :: "('w \<Rightarrow> 'a \<times> 'w) \<Rightarrow> nat \<times> 'w \<Rightarrow> 'a \<times> nat \<times> 'w" where
  "uncounted f = (\<lambda>(c, w). case f w of (r, w1) \<Rightarrow> (r, c, w1))"

section \<open>Auxiliary notions for the proofs\<close>

subsection \<open>Invariant of the walk\<close>

text \<open>
  What holds of the walk state between two invocations below the root, for a walk that
  started from the counter \<open>n0\<close>: the ghost log lists the ids \<open>voId (n0 + 1)\<close>, ...,
  \<open>voId (nextId st)\<close> in this order, every logged id but the first is the target of the
  relationship at the same position, the virtual objects are those of the logged
  invocations within the depth limit, and the first logged invocation has depth 0.
  \<open>walkPre\<close> is the same with the invocation of id \<open>i\<close> about to be logged.
\<close>

definition walkInv :: "excavator \<Rightarrow> nat \<Rightarrow> walkState \<Rightarrow> bool" where
  "walkInv ex n0 st \<longleftrightarrow>
     n0 < nextId st \<and>
     map fst (calls st) = map voId [Suc n0..<Suc (nextId st)] \<and>
     map fst (calls st) = voId (Suc n0) # map rel_to (relList st) \<and>
     map vo_id (vList st) = map fst (filter (\<lambda>(i, d). d \<le> maxDepth ex) (calls st)) \<and>
     snd (hd (calls st)) = 0"

definition walkPre :: "excavator \<Rightarrow> nat \<Rightarrow> string \<Rightarrow> int \<Rightarrow> walkState \<Rightarrow> bool" where
  "walkPre ex n0 i depth st \<longleftrightarrow>
     n0 < nextId st \<and>
     map fst (calls st) @ [i] = map voId [Suc n0..<Suc (nextId st)] \<and>
     map fst (calls st) @ [i] = voId (Suc n0) # map rel_to (relList st) \<and>
     map vo_id (vList st) = map fst (filter (\<lambda>(i, d). d \<le> maxDepth ex) (calls st)) \<and>
     snd (hd (calls st @ [(i, depth)])) = 0"

text \<open>
  The nesting depths of the nodes of a value that lie within the limits, in document
  order: the value itself at depth \<open>d\<close> and, when \<open>d\<close> is within \<open>maxDepth\<close>, the values of
  its entries, or of its sampled elements, at depth \<open>d + 1\<close>.
\<close>

function nestingDepths :: "excavator \<Rightarrow> json \<Rightarrow> int \<Rightarrow> int list"
  and fieldDepths :: "excavator \<Rightarrow> (string \<times> json) list \<Rightarrow> int \<Rightarrow> int list"
  and elementDepths :: "excavator \<Rightarrow> json list \<Rightarrow> int \<Rightarrow> int list"
where
  "nestingDepths ex v d =
     d # (if maxDepth ex < d then []
          else (case v of
                  JObj entries \<Rightarrow> fieldDepths ex entries (d + 1)
                | JArr els \<Rightarrow> elementDepths ex (slice0 els (maxArraySample ex)) (d + 1)
                | _ \<Rightarrow> []))"
| "fieldDepths ex [] d = []"
| "fieldDepths ex ((k, v) # rest) d = nestingDepths ex v d @ fieldDepths ex rest d"
| "elementDepths ex [] d = []"
| "elementDepths ex (el # rest) d = nestingDepths ex el d @ elementDepths ex rest d"
  by pat_completeness auto
termination
proof (relation "measure (\<lambda>x. case x of
        Inl (ex, v, d) \<Rightarrow> 2 * size v + 1
      | Inr (Inl (ex, kvs, d)) \<Rightarrow> 2 * size_list (size_prod (\<lambda>_. 0) size) kvs
      | Inr (Inr (ex, els, d)) \<Rightarrow> 2 * size_list size els)",
    goal_cases)
  case (2 ex v d x5)
  then show ?case
    using size_slice0 [of size x5 "maxArraySample ex"] by simp
qed simp_all

declare nestingDepths.simps [simp del]

text \<open>
  \<open>relDepths ex st\<close>: every relationship leaves an invocation logged within \<open>maxDepth\<close> and
  reaches an invocation logged one level deeper.
\<close>

definition relDepths :: "excavator \<Rightarrow> walkState \<Rightarrow> bool" where
  "relDepths ex st \<longleftrightarrow>
     (\<forall>r \<in> set (relList st). \<exists>d. d \<le> maxDepth ex \<and>
        (rel_from r, d) \<in> set (calls st) \<and> (rel_to r, d + 1) \<in> set (calls st))"

text \<open>
  \<open>extends st st'\<close>: the walk only appends to the output arrays and only advances the
  counter. \<open>relsFrom i st\<close>: the relationships leaving the id \<open>i\<close>. \<open>fresh i st\<close>: the id
  \<open>i\<close> is not one the counter will still hand out. \<open>histCount h t\<close>: the count a histogram
  holds for the type \<open>t\<close>.
\<close>

definition extends :: "walkState \<Rightarrow> walkState \<Rightarrow> bool" where
  "extends st st' \<longleftrightarrow>
     nextId st \<le> nextId st' \<and>
     take (length (vList st)) (vList st') = vList st \<and> length (vList st) \<le> length (vList st') \<and>
     take (length (relList st)) (relList st') = relList st \<and> length (relList st) \<le> length (relList st')"

definition relsFrom :: "string \<Rightarrow> walkState \<Rightarrow> relationship list" where
  "relsFrom i st = filter (\<lambda>r. rel_from r = i) (relList st)"

definition fresh :: "string \<Rightarrow> walkState \<Rightarrow> bool" where
  "fresh i st \<longleftrightarrow> (\<forall>k > nextId st. voId k \<noteq> i)"

definition histCount :: "(string \<times> nat) list \<Rightarrow> string \<Rightarrow> nat" where
  "histCount h t = (case map_of h t of Some c \<Rightarrow> c | None \<Rightarrow> 0)"

subsection \<open>What one call of addSnapshot builds\<close>

text \<open>
  The snapshot \<^verbatim>\<open>addSnapshot\<close> builds for a session, and the log it keeps after the push
  and the eviction, as they stand in the body of \<open>addSnapshot\<close>.
\<close>

definition newSnapshot :: "string \<Rightarrow> session \<Rightarrow> excavationResult \<Rightarrow> string \<Rightarrow> string \<Rightarrow> snapshot" where
  "newSnapshot sessionId s r label now =
     \<lparr>snap_id = sessionId @ '':'' @ numToString 10 (length (sess_snapshots s)),
      snap_label = label, snap_capturedAt = now,
      snap_metrics =
        \<lparr>m_virtualObjects = length (virtualObjects r),
         m_relationships = length (relationships r),
         m_domSheets = (case domSheets r of Some sheets \<Rightarrow> length sheets | None \<Rightarrow> 0)\<rparr>,
      snap_result = r\<rparr>"

definition keptLog :: "int \<Rightarrow> snapshot list \<Rightarrow> snapshot \<Rightarrow> snapshot list" where
  "keptLog cap old snap =
     (if int (length (old @ [snap])) > cap then tl (old @ [snap]) else old @ [snap])"

subsection \<open>Keys the score engine has seen\<close>

text \<open>\<open>seen eng key\<close>: the engine holds at least one recorded observation of the key.\<close>

definition seen :: "scoreEngine \<Rightarrow> string \<Rightarrow> bool" where
  "seen eng key \<longleftrightarrow> (\<exists>h. objectHistory eng key = Some h \<and> h \<noteq> [])"

subsection \<open>Sample data\<close>

text \<open>
  An excavation result with \<open>nv\<close> virtual objects and \<open>nr\<close> relationships that mention
  the id \<open>i\<close>, and a manager with no session yet.
\<close>

definition sampleResult :: "string \<Rightarrow> nat \<Rightarrow> nat \<Rightarrow> excavationResult" where
  "sampleResult i nv nr =
     \<lparr>virtualObjects = replicate nv (emptyVO i ''#''),
      relationships = replicate nr \<lparr>rel_from = i, rel_to = i, rel_kind = ''field'',
                                   rel_name = Some ''f'', rel_index = None\<rparr>,
      domSheets = None\<rparr>"

definition sampleManager :: "int \<Rightarrow> persistence option \<Rightarrow> sessionManager" where
  "sampleManager cap store =
     \<lparr>sm_maxDepth = 6, maxSnapshots = cap, sessions = Map.empty, sm_persistence = store\<rparr>"


text \<open>
  A virtual object as a DOM adapter emits it (identity key \<^verbatim>\<open>dom-tag:div>a\<close>), a snapshot
  holding given virtual objects, and an engine that has scored nothing yet.
\<close>

definition sampleVO :: virtualObject where
  "sampleVO = (emptyVO ''vo_1'' ''#'')\<lparr>vo_category := Some ''dom-tag'', vo_signature := Some ''div>a''\<rparr>"

definition sampleSnapshot :: "virtualObject list \<Rightarrow> snapshot" where
  "sampleSnapshot vos =
     \<lparr>snap_id = ''s:0'', snap_label = ''shallow'', snap_capturedAt = ''t1'',
      snap_metrics = \<lparr>m_virtualObjects = length vos, m_relationships = 0, m_domSheets = 0\<rparr>,
      snap_result = \<lparr>virtualObjects = vos, relationships = [], domSheets = None\<rparr>\<rparr>"

definition sampleEngine :: scoreEngine where
  "sampleEngine = \<lparr>historyWindow = 10, objectHistory = Map.empty\<rparr>"

text \<open>
  Callbacks for a run: the world is a counter of all callback invocations, a result is a
  number, a region a string.
\<close>

definition sampleShallow :: "string \<Rightarrow> nat \<Rightarrow> (string + nat) \<times> nat" where
  "sampleShallow input w = (Inr (length input), Suc w)"

definition sampleDeep :: "string \<Rightarrow> string \<Rightarrow> nat \<Rightarrow> (string + nat) \<times> nat" where
  "sampleDeep input region w = (Inr (length input + length region), Suc w)"

definition sampleSelect :: "nat \<Rightarrow> nat \<Rightarrow> (string + string list) \<times> nat" where
  "sampleSelect shallow w = (Inr [''r1'', ''r22'', ''r333''], Suc w)"

section \<open>Properties of the excavator\<close>

subsection \<open>Ids are distinct\<close>

lemma digitChar_inj:
  assumes "d < 36" "e < 36" "digitChar d = digitChar e"
  shows "d = e"
proof -
  have dist: "distinct ''0123456789abcdefghijklmnopqrstuvwxyz''" by simp
  have len: "length ''0123456789abcdefghijklmnopqrstuvwxyz'' = 36" by simp
  show ?thesis
    using assms nth_eq_iff_index_eq [OF dist, of d e] unfolding digitChar_def len by blast
qed

lemma numToString_small: "n < r \<Longrightarrow> numToString r n = [digitChar n]"
  by (subst numToString.simps) simp

lemma numToString_nonempty: "numToString r n \<noteq> []"
  by (subst numToString.simps) simp

lemma numToString_inj:
  "2 \<le> r \<Longrightarrow> r \<le> 36 \<Longrightarrow> numToString r n = numToString r m \<Longrightarrow> n = m"
proof (induction r n arbitrary: m rule: numToString.induct)
  case (1 r n)
  have small: "numToString r k = [digitChar k]" if "k < r" for k
    using that by (subst numToString.simps) simp
  have big: "numToString r k = numToString r (k div r) @ [digitChar (k mod r)]" if "\<not> k < r" for k
    using that \<open>2 \<le> r\<close> by (subst numToString.simps) simp
  have digit: "a = b" if "a < r" "b < r" "digitChar a = digitChar b" for a b
    using that \<open>r \<le> 36\<close> digitChar_inj [of a b] by simp
  have rpos: "0 < r" using \<open>2 \<le> r\<close> by simp
  show ?case
  proof (cases "n < r")
    case True
    show ?thesis
    proof (cases "m < r")
      case True
      with \<open>n < r\<close> "1.prems"(3) show ?thesis by (simp add: small digit)
    next
      case False
      with \<open>n < r\<close> "1.prems"(3) numToString_nonempty [of r "m div r"]
      show ?thesis by (simp add: small big)
    qed
  next
    case nbig: False
    show ?thesis
    proof (cases "m < r")
      case True
      with nbig "1.prems"(3) numToString_nonempty [of r "n div r"]
      show ?thesis by (simp add: small big)
    next
      case False
      with nbig "1.prems"(3)
      have eq: "numToString r (n div r) = numToString r (m div r)"
        and dg: "digitChar (n mod r) = digitChar (m mod r)"
        by (simp_all add: big)
      have "n div r = m div r"
        using "1.IH" [of "m div r"] nbig "1.prems"(1,2) eq by simp
      moreover have "n mod r = m mod r"
        using digit [of "n mod r" "m mod r"] dg rpos by simp
      ultimately show ?thesis
        by (metis div_mult_mod_eq)
    qed
  qed
qed

lemma genId_vo: "genId ''vo'' st = (voId (Suc (nextId st)), st\<lparr>nextId := Suc (nextId st)\<rparr>)"
  by (simp add: genId_def voId_def Let_def)

lemma voId_inj: "voId a = voId b \<Longrightarrow> a = b"
  using numToString_inj [of 36 a b] by (simp add: voId_def)

subsection \<open>The invariant is kept\<close>

lemma walkPre_enter:
  "walkPre ex n0 i depth st \<Longrightarrow> maxDepth ex < depth \<Longrightarrow>
   walkInv ex n0 (st\<lparr>calls := calls st @ [(i, depth)]\<rparr>)"
  by (auto simp: walkPre_def walkInv_def)

lemma walkPre_emit:
  "walkPre ex n0 i depth st \<Longrightarrow> \<not> maxDepth ex < depth \<Longrightarrow> vo_id vo = i \<Longrightarrow>
   walkInv ex n0 (st\<lparr>calls := calls st @ [(i, depth)], vList := vList st @ [vo]\<rparr>)"
  by (auto simp: walkPre_def walkInv_def)

lemma walkInv_child:
  assumes "walkInv ex n0 st"
  shows "walkPre ex n0 (voId (Suc (nextId st))) d
     (st\<lparr>nextId := Suc (nextId st),
         relList := relList st @ [\<lparr>rel_from = i, rel_to = voId (Suc (nextId st)), rel_kind = k,
            rel_name = nm, rel_index = ix\<rparr>]\<rparr>)"
  using assms by (auto simp: walkPre_def walkInv_def)

lemma walkInv_nonempty: "walkInv ex n0 st \<Longrightarrow> calls st \<noteq> []"
  by (auto simp: walkInv_def)

lemma walk_preserves:
  "walkPre ex n0 i depth st \<Longrightarrow> walkInv ex n0 (walkValue ex v i path depth st)"
  "walkInv ex n0 st1 \<Longrightarrow> walkInv ex n0 (walkFields ex kvs i1 path1 depth1 st1)"
  "walkInv ex n0 st2 \<Longrightarrow> walkInv ex n0 (walkElements ex els idx i2 path2 depth2 st2)"
proof (induction ex v i path depth st and ex kvs i1 path1 depth1 st1 and ex els idx i2 path2 depth2 st2
    rule: walkValue_walkFields_walkElements.induct)
  case (1 ex v i path depth st0)
  show ?case
  proof (cases "maxDepth ex < depth")
    case True
    with "1.prems" show ?thesis
      by (simp add: walkValue.simps walkPre_enter)
  next
    case False
    have emit: "walkInv ex n0 (st0\<lparr>calls := calls st0 @ [(i, depth)], vList := vList st0 @ [vo]\<rparr>)"
      if "vo_id vo = i" for vo
      using walkPre_emit [OF "1.prems" False that] .
    show ?thesis
    proof (cases v)
      case (JObj entries)
      with False "1.IH"(2) [OF refl False JObj] emit show ?thesis
        by (simp add: walkValue.simps emptyVO_def)
    next
      case (JArr els)
      with False "1.IH"(1) [OF refl False JArr refl] emit show ?thesis
        by (simp add: walkValue.simps emptyVO_def Let_def)
    qed (use False emit in \<open>simp_all add: walkValue.simps emptyVO_def\<close>)
  qed
next
  case (2 ex i path depth st)
  then show ?case by simp
next
  case (3 ex k v rest i path depth st)
  define y where "y = st\<lparr>nextId := Suc (nextId st)\<rparr>"
  define xb where "xb = y\<lparr>relList := relList y @
      [\<lparr>rel_from = i, rel_to = voId (Suc (nextId st)), rel_kind = ''field'',
        rel_name = Some k, rel_index = None\<rparr>]\<rparr>"
  have gen: "(voId (Suc (nextId st)), y) = genId ''vo'' st"
    by (simp add: genId_vo y_def)
  have pre: "walkPre ex n0 (voId (Suc (nextId st))) (depth + 1) xb"
    using walkInv_child [OF "3.prems", where i = i and k = "''field''" and nm = "Some k"
        and ix = None and d = "depth + 1"]
    by (simp add: xb_def y_def)
  have mid: "walkInv ex n0 (walkValue ex v (voId (Suc (nextId st))) (path @ ''.'' @ k) (depth + 1) xb)"
    using "3.IH"(1) [OF refl gen xb_def pre] .
  show ?case
    using "3.IH"(2) [OF refl gen xb_def refl mid]
    by (simp add: gen [symmetric] xb_def)
next
  case (4 ex idx i path depth st)
  then show ?case by simp
next
  case (5 ex el rest idx i path depth st)
  define y where "y = st\<lparr>nextId := Suc (nextId st)\<rparr>"
  define xb where "xb = y\<lparr>relList := relList y @
      [\<lparr>rel_from = i, rel_to = voId (Suc (nextId st)), rel_kind = ''element'',
        rel_name = None, rel_index = Some idx\<rparr>]\<rparr>"
  have gen: "(voId (Suc (nextId st)), y) = genId ''vo'' st"
    by (simp add: genId_vo y_def)
  have pre: "walkPre ex n0 (voId (Suc (nextId st))) (depth + 1) xb"
    using walkInv_child [OF "5.prems", where i = i and k = "''element''" and nm = None
        and ix = "Some idx" and d = "depth + 1"]
    by (simp add: xb_def y_def)
  have mid: "walkInv ex n0 (walkValue ex el (voId (Suc (nextId st)))
      (path @ ''['' @ numToString 10 idx @ '']'') (depth + 1) xb)"
    using "5.IH"(1) [OF refl gen xb_def pre] .
  show ?case
    using "5.IH"(2) [OF refl gen xb_def refl mid]
    by (simp add: gen [symmetric] xb_def)
qed

lemma excavateWalk_inv: "walkInv ex n (excavateWalk ex input n)"
proof -
  have "walkPre ex n (voId (Suc n)) 0 \<lparr>nextId = Suc n, vList = [], relList = [], calls = []\<rparr>"
    by (simp add: walkPre_def)
  then show ?thesis
    by (simp add: excavateWalk_def genId_vo walk_preserves(1))
qed

lemma walkInv_distinct: "walkInv ex n0 st \<Longrightarrow> distinct (map fst (calls st))"
  by (auto simp: walkInv_def distinct_map inj_on_def dest: voId_inj)

lemma walkInv_vo_iff:
  assumes inv: "walkInv ex n0 st" and mem: "(i, d) \<in> set (calls st)"
  shows "(\<exists>vo \<in> set (vList st). vo_id vo = i) \<longleftrightarrow> d \<le> maxDepth ex"
proof -
  have ids: "vo_id ` set (vList st) = fst ` set (filter (\<lambda>(i, d). d \<le> maxDepth ex) (calls st))"
    using inv by (metis walkInv_def set_map)
  show ?thesis
  proof
    assume "\<exists>vo \<in> set (vList st). vo_id vo = i"
    then have "i \<in> fst ` set (filter (\<lambda>(i, d). d \<le> maxDepth ex) (calls st))"
      using ids by force
    then obtain d' where d': "(i, d') \<in> set (calls st)" "d' \<le> maxDepth ex"
      by auto
    have "d' = d"
      using eq_key_imp_eq_value [OF walkInv_distinct [OF inv] d'(1) mem] .
    with d'(2) show "d \<le> maxDepth ex" by simp
  next
    assume "d \<le> maxDepth ex"
    with mem have "i \<in> fst ` set (filter (\<lambda>(i, d). d \<le> maxDepth ex) (calls st))"
      by force
    with ids show "\<exists>vo \<in> set (vList st). vo_id vo = i" by force
  qed
qed

lemma walkInv_rel:
  assumes inv: "walkInv ex n0 st" and mem: "(i, d) \<in> set (calls st)" and pos: "0 < d"
  shows "\<exists>r \<in> set (relList st). rel_to r = i"
proof -
  obtain c rest where cs: "calls st = c # rest"
    using walkInv_nonempty [OF inv] by (cases "calls st") auto
  have "snd c = 0" using inv cs by (simp add: walkInv_def)
  with mem pos cs have "(i, d) \<in> set rest" by auto
  then have "i \<in> set (map fst rest)" by force
  moreover have "map fst rest = map rel_to (relList st)"
    using inv cs by (simp add: walkInv_def)
  ultimately show ?thesis by auto
qed

lemma walkValue_truncated:
  "maxDepth ex < depth \<Longrightarrow>
   walkValue ex v i path depth st = st\<lparr>calls := calls st @ [(i, depth)]\<rparr>"
  by (simp add: walkValue.simps)

lemma example1:
  "maxDepth ex = 1 \<Longrightarrow>
   excavate ex (JObj [(''a'', JObj [(''b'', JObj [(''c'', JNum 1)])])]) n =
     (\<lparr>virtualObjects =
         [(emptyVO (voId (n + 1)) ''#'')\<lparr>vo_category := Some ''struct'', vo_type := Some ''object'',
             vo_fields := Some [(''a'', ''object'')]\<rparr>,
          (emptyVO (voId (n + 2)) ''#.a'')\<lparr>vo_category := Some ''struct'', vo_type := Some ''object'',
             vo_fields := Some [(''b'', ''object'')]\<rparr>],
       relationships =
         [\<lparr>rel_from = voId (n + 1), rel_to = voId (n + 2), rel_kind = ''field'',
            rel_name = Some ''a'', rel_index = None\<rparr>,
          \<lparr>rel_from = voId (n + 2), rel_to = voId (n + 3), rel_kind = ''field'',
            rel_name = Some ''b'', rel_index = None\<rparr>],
       domSheets = Some []\<rparr>, n + 3)"
  by (simp add: excavate_def excavateWalk_def genId_vo walkValue.simps Let_def fieldTypes_def
      numeral_3_eq_3)

subsection \<open>Facts about the built-ins\<close>

lemma slice0_nonneg: "0 \<le> m \<Longrightarrow> slice0 xs m = take (nat m) xs"
  by (simp add: slice0_def Let_def min_def)

lemma numToString_last: "2 \<le> r \<Longrightarrow> last (numToString r n) = digitChar (n mod r)"
  by (subst numToString.simps) simp

lemma numToString_not_value: "numToString 10 k \<noteq> ''value''"
proof
  assume eq: "numToString 10 k = ''value''"
  have "digitChar (k mod 10) = CHR ''e''"
    using numToString_last [of 10 k] by (simp add: eq)
  moreover have "digitChar 14 = CHR ''e''"
    by (simp add: digitChar_def)
  ultimately have "k mod 10 = 14"
    using digitChar_inj [of "k mod 10" 14] by simp
  then show False
    using mod_less_divisor [of 10 k] by simp
qed

lemma ownProperty_array_value: "ownProperty (JArr xs) ''value'' = None"
proof -
  have "''value'' \<notin> set (map (numToString 10) [0..<length xs])"
  proof
    assume "''value'' \<in> set (map (numToString 10) [0..<length xs])"
    then obtain k where "''value'' = numToString 10 k" by auto
    then show False using numToString_not_value [of k] by simp
  qed
  then have "''value'' \<notin> fst ` set (zip (map (numToString 10) [0..<length xs]) xs)"
    by (auto dest: set_zip_leftD)
  then have "map_of (zip (map (numToString 10) [0..<length xs]) xs) ''value'' = None"
    unfolding map_of_eq_None_iff .
  then show ?thesis by simp
qed

subsection \<open>Depths of the invocations\<close>

lemma walk_depths:
  "map snd (calls (walkValue ex v i path depth st)) = map snd (calls st) @ nestingDepths ex v depth"
  "map snd (calls (walkFields ex kvs i1 path1 depth1 st1)) =
     map snd (calls st1) @ fieldDepths ex kvs (depth1 + 1)"
  "map snd (calls (walkElements ex els idx i2 path2 depth2 st2)) =
     map snd (calls st2) @ elementDepths ex els (depth2 + 1)"
proof (induction ex v i path depth st and ex kvs i1 path1 depth1 st1 and ex els idx i2 path2 depth2 st2
    rule: walkValue_walkFields_walkElements.induct)
  case (1 ex v i path depth st0)
  show ?case
  proof (cases "maxDepth ex < depth")
    case True
    then show ?thesis
      by (simp add: walkValue.simps nestingDepths.simps)
  next
    case False
    show ?thesis
    proof (cases v)
      case (JObj entries)
      with False "1.IH"(2) [OF refl False JObj] show ?thesis
        by (simp add: walkValue.simps nestingDepths.simps)
    next
      case (JArr els)
      with False "1.IH"(1) [OF refl False JArr refl] show ?thesis
        by (simp add: walkValue.simps nestingDepths.simps Let_def)
    qed (use False in \<open>simp_all add: walkValue.simps nestingDepths.simps\<close>)
  qed
next
  case (2 ex i path depth st)
  then show ?case by simp
next
  case (3 ex k v rest i path depth st)
  define y where "y = st\<lparr>nextId := Suc (nextId st)\<rparr>"
  define xb where "xb = y\<lparr>relList := relList y @
      [\<lparr>rel_from = i, rel_to = voId (Suc (nextId st)), rel_kind = ''field'',
        rel_name = Some k, rel_index = None\<rparr>]\<rparr>"
  have gen: "(voId (Suc (nextId st)), y) = genId ''vo'' st"
    by (simp add: genId_vo y_def)
  show ?case
    using "3.IH"(2) [OF refl gen xb_def refl] "3.IH"(1) [OF refl gen xb_def]
    by (simp add: gen [symmetric] xb_def y_def)
next
  case (4 ex idx i path depth st)
  then show ?case by simp
next
  case (5 ex el rest idx i path depth st)
  define y where "y = st\<lparr>nextId := Suc (nextId st)\<rparr>"
  define xb where "xb = y\<lparr>relList := relList y @
      [\<lparr>rel_from = i, rel_to = voId (Suc (nextId st)), rel_kind = ''element'',
        rel_name = None, rel_index = Some idx\<rparr>]\<rparr>"
  have gen: "(voId (Suc (nextId st)), y) = genId ''vo'' st"
    by (simp add: genId_vo y_def)
  show ?case
    using "5.IH"(2) [OF refl gen xb_def refl] "5.IH"(1) [OF refl gen xb_def]
    by (simp add: gen [symmetric] xb_def y_def)
qed

lemma walk_calls:
  "\<exists>cs. calls (walkValue ex v i path depth st) = calls st @ (i, depth) # cs"
  "\<exists>cs. calls (walkFields ex kvs i1 path1 depth1 st1) = calls st1 @ cs"
  "\<exists>cs. calls (walkElements ex els idx i2 path2 depth2 st2) = calls st2 @ cs"
proof (induction ex v i path depth st and ex kvs i1 path1 depth1 st1 and ex els idx i2 path2 depth2 st2
    rule: walkValue_walkFields_walkElements.induct)
  case (1 ex v i path depth st0)
  show ?case
  proof (cases "maxDepth ex < depth")
    case True
    then show ?thesis
      by (simp add: walkValue.simps)
  next
    case False
    show ?thesis
    proof (cases v)
      case (JObj entries)
      with False "1.IH"(2) [OF refl False JObj] show ?thesis
        by (simp add: walkValue.simps)
    next
      case (JArr els)
      with False "1.IH"(1) [OF refl False JArr refl] show ?thesis
        by (simp add: walkValue.simps Let_def)
    qed (use False in \<open>simp_all add: walkValue.simps\<close>)
  qed
next
  case (2 ex i path depth st)
  then show ?case by simp
next
  case (3 ex k v rest i path depth st)
  define y where "y = st\<lparr>nextId := Suc (nextId st)\<rparr>"
  define xb where "xb = y\<lparr>relList := relList y @
      [\<lparr>rel_from = i, rel_to = voId (Suc (nextId st)), rel_kind = ''field'',
        rel_name = Some k, rel_index = None\<rparr>]\<rparr>"
  have gen: "(voId (Suc (nextId st)), y) = genId ''vo'' st"
    by (simp add: genId_vo y_def)
  show ?case
    using "3.IH"(2) [OF refl gen xb_def refl] "3.IH"(1) [OF refl gen xb_def]
    by (auto simp add: gen [symmetric] xb_def y_def)
next
  case (4 ex idx i path depth st)
  then show ?case by simp
next
  case (5 ex el rest idx i path depth st)
  define y where "y = st\<lparr>nextId := Suc (nextId st)\<rparr>"
  define xb where "xb = y\<lparr>relList := relList y @
      [\<lparr>rel_from = i, rel_to = voId (Suc (nextId st)), rel_kind = ''element'',
        rel_name = None, rel_index = Some idx\<rparr>]\<rparr>"
  have gen: "(voId (Suc (nextId st)), y) = genId ''vo'' st"
    by (simp add: genId_vo y_def)
  show ?case
    using "5.IH"(2) [OF refl gen xb_def refl] "5.IH"(1) [OF refl gen xb_def]
    by (auto simp add: gen [symmetric] xb_def y_def)
qed

lemma relDepths_child:
  assumes inv: "relDepths ex st" and mem: "(i, depth) \<in> set (calls st)" and le: "depth \<le> maxDepth ex"
  shows "relDepths ex
     (st\<lparr>nextId := m,
         relList := relList st @ [\<lparr>rel_from = i, rel_to = c, rel_kind = k,
            rel_name = nm, rel_index = ix\<rparr>],
         calls := calls st @ [(c, depth + 1)]\<rparr>)"
  unfolding relDepths_def
proof (intro ballI)
  fix r
  assume "r \<in> set (relList (st\<lparr>nextId := m,
         relList := relList st @ [\<lparr>rel_from = i, rel_to = c, rel_kind = k,
            rel_name = nm, rel_index = ix\<rparr>],
         calls := calls st @ [(c, depth + 1)]\<rparr>))"
  then consider "r \<in> set (relList st)"
    | "r = \<lparr>rel_from = i, rel_to = c, rel_kind = k, rel_name = nm, rel_index = ix\<rparr>"
    by auto
  then show "\<exists>d. d \<le> maxDepth ex \<and>
      (rel_from r, d) \<in> set (calls (st\<lparr>nextId := m,
         relList := relList st @ [\<lparr>rel_from = i, rel_to = c, rel_kind = k,
            rel_name = nm, rel_index = ix\<rparr>],
         calls := calls st @ [(c, depth + 1)]\<rparr>)) \<and>
      (rel_to r, d + 1) \<in> set (calls (st\<lparr>nextId := m,
         relList := relList st @ [\<lparr>rel_from = i, rel_to = c, rel_kind = k,
            rel_name = nm, rel_index = ix\<rparr>],
         calls := calls st @ [(c, depth + 1)]\<rparr>))"
  proof cases
    case 1
    then obtain d where "d \<le> maxDepth ex" "(rel_from r, d) \<in> set (calls st)"
        "(rel_to r, d + 1) \<in> set (calls st)"
      using inv unfolding relDepths_def by blast
    then show ?thesis
      by (intro exI [of _ d]) simp
  next
    case 2
    then show ?thesis
      using mem le by (intro exI [of _ depth]) simp
  qed
qed

lemma walk_relDepths:
  "relDepths ex (st\<lparr>calls := calls st @ [(i, depth)]\<rparr>) \<Longrightarrow>
   relDepths ex (walkValue ex v i path depth st)"
  "relDepths ex st1 \<Longrightarrow> (i1, depth1) \<in> set (calls st1) \<Longrightarrow> depth1 \<le> maxDepth ex \<Longrightarrow>
   relDepths ex (walkFields ex kvs i1 path1 depth1 st1)"
  "relDepths ex st2 \<Longrightarrow> (i2, depth2) \<in> set (calls st2) \<Longrightarrow> depth2 \<le> maxDepth ex \<Longrightarrow>
   relDepths ex (walkElements ex els idx i2 path2 depth2 st2)"
proof (induction ex v i path depth st and ex kvs i1 path1 depth1 st1 and ex els idx i2 path2 depth2 st2
    rule: walkValue_walkFields_walkElements.induct)
  case (1 ex v i path depth st0)
  show ?case
  proof (cases "maxDepth ex < depth")
    case True
    with "1.prems" show ?thesis
      by (simp add: walkValue.simps)
  next
    case False
    define st where "st = st0\<lparr>calls := calls st0 @ [(i, depth)]\<rparr>"
    have emit: "relDepths ex (st\<lparr>vList := vList st @ [vo]\<rparr>)" for vo
      using "1.prems" by (simp add: relDepths_def st_def)
    have mem: "(i, depth) \<in> set (calls (st\<lparr>vList := vList st @ [vo]\<rparr>))" for vo
      by (simp add: st_def)
    have le: "depth \<le> maxDepth ex"
      using False by simp
    show ?thesis
    proof (cases v)
      case (JObj entries)
      with False "1.IH"(2) [OF st_def False JObj emit mem le] show ?thesis
        by (simp add: walkValue.simps st_def)
    next
      case (JArr els)
      with False "1.IH"(1) [OF st_def False JArr refl emit mem le] show ?thesis
        by (simp add: walkValue.simps Let_def st_def)
    qed (use False emit in \<open>simp_all add: walkValue.simps st_def\<close>)
  qed
next
  case (2 ex i path depth st)
  then show ?case by simp
next
  case (3 ex k v rest i path depth st)
  define y where "y = st\<lparr>nextId := Suc (nextId st)\<rparr>"
  define xb where "xb = y\<lparr>relList := relList y @
      [\<lparr>rel_from = i, rel_to = voId (Suc (nextId st)), rel_kind = ''field'',
        rel_name = Some k, rel_index = None\<rparr>]\<rparr>"
  define st3 where "st3 = walkValue ex v (voId (Suc (nextId st))) (path @ ''.'' @ k) (depth + 1) xb"
  have gen: "(voId (Suc (nextId st)), y) = genId ''vo'' st"
    by (simp add: genId_vo y_def)
  have pre: "relDepths ex (xb\<lparr>calls := calls xb @ [(voId (Suc (nextId st)), depth + 1)]\<rparr>)"
    using relDepths_child [OF "3.prems", where m = "Suc (nextId st)" and c = "voId (Suc (nextId st))"
        and k = "''field''" and nm = "Some k" and ix = None]
    by (simp add: xb_def y_def)
  have mid: "relDepths ex st3"
    unfolding st3_def using "3.IH"(1) [OF refl gen xb_def pre] .
  obtain cs where "calls st3 = calls xb @ (voId (Suc (nextId st)), depth + 1) # cs"
    unfolding st3_def using walk_calls(1) by blast
  then have mem: "(i, depth) \<in> set (calls st3)"
    using "3.prems"(2) by (simp add: xb_def y_def)
  show ?case
    using "3.IH"(2) [OF refl gen xb_def refl, folded st3_def, OF mid mem "3.prems"(3)]
    by (simp add: gen [symmetric] xb_def st3_def)
next
  case (4 ex idx i path depth st)
  then show ?case by simp
next
  case (5 ex el rest idx i path depth st)
  define y where "y = st\<lparr>nextId := Suc (nextId st)\<rparr>"
  define xb where "xb = y\<lparr>relList := relList y @
      [\<lparr>rel_from = i, rel_to = voId (Suc (nextId st)), rel_kind = ''element'',
        rel_name = None, rel_index = Some idx\<rparr>]\<rparr>"
  define st3 where "st3 = walkValue ex el (voId (Suc (nextId st)))
      (path @ ''['' @ numToString 10 idx @ '']'') (depth + 1) xb"
  have gen: "(voId (Suc (nextId st)), y) = genId ''vo'' st"
    by (simp add: genId_vo y_def)
  have pre: "relDepths ex (xb\<lparr>calls := calls xb @ [(voId (Suc (nextId st)), depth + 1)]\<rparr>)"
    using relDepths_child [OF "5.prems", where m = "Suc (nextId st)" and c = "voId (Suc (nextId st))"
        and k = "''element''" and nm = None and ix = "Some idx"]
    by (simp add: xb_def y_def)
  have mid: "relDepths ex st3"
    unfolding st3_def using "5.IH"(1) [OF refl gen xb_def pre] .
  obtain cs where "calls st3 = calls xb @ (voId (Suc (nextId st)), depth + 1) # cs"
    unfolding st3_def using walk_calls(1) by blast
  then have mem: "(i, depth) \<in> set (calls st3)"
    using "5.prems"(2) by (simp add: xb_def y_def)
  show ?case
    using "5.IH"(2) [OF refl gen xb_def refl, folded st3_def, OF mid mem "5.prems"(3)]
    by (simp add: gen [symmetric] xb_def st3_def)
qed

lemma excavateWalk_relDepths: "relDepths ex (excavateWalk ex input n)"
proof -
  have "relDepths ex (\<lparr>nextId = Suc n, vList = [], relList = [], calls = []\<rparr>\<lparr>calls := [] @ [(voId (Suc n), 0)]\<rparr>)"
    by (simp add: relDepths_def)
  then show ?thesis
    using walk_relDepths(1) [of ex "\<lparr>nextId = Suc n, vList = [], relList = [], calls = []\<rparr>" "voId (Suc n)" 0]
    by (simp add: excavateWalk_def genId_vo)
qed

lemma excavateWalk_depths:
  "map snd (calls (excavateWalk ex input n)) =
     nestingDepths ex (if truthy input
        then (case ownProperty input ''value'' of Some v \<Rightarrow> v | None \<Rightarrow> input) else input) 0"
  by (simp add: excavateWalk_def genId_vo walk_depths(1))

lemma walkInv_logged:
  assumes "walkInv ex n0 st" and "vo \<in> set (vList st)"
  shows "\<exists>d. d \<le> maxDepth ex \<and> (vo_id vo, d) \<in> set (calls st)"
proof -
  have "map vo_id (vList st) = map fst (filter (\<lambda>(i, d). d \<le> maxDepth ex) (calls st))"
    using assms(1) unfolding walkInv_def by blast
  then have "set (map vo_id (vList st)) = set (map fst (filter (\<lambda>(i, d). d \<le> maxDepth ex) (calls st)))"
    by simp
  moreover have "vo_id vo \<in> set (map vo_id (vList st))"
    using assms(2) by simp
  ultimately have "vo_id vo \<in> set (map fst (filter (\<lambda>(i, d). d \<le> maxDepth ex) (calls st)))"
    by blast
  then show ?thesis by auto
qed

lemma depths_lower:
  "\<forall>x \<in> set (nestingDepths ex v d). d \<le> x"
  "\<forall>x \<in> set (fieldDepths ex kvs d1). d1 \<le> x"
  "\<forall>x \<in> set (elementDepths ex els d2). d2 \<le> x"
proof (induction ex v d and ex kvs d1 and ex els d2 rule: nestingDepths_fieldDepths_elementDepths.induct)
  case (1 ex v d)
  show ?case
  proof (cases "maxDepth ex < d")
    case True
    then show ?thesis by (simp add: nestingDepths.simps)
  next
    case False
    show ?thesis
    proof (cases v)
      case (JObj entries)
      with False "1.IH"(2) [OF False JObj] show ?thesis
        by (subst nestingDepths.simps) fastforce
    next
      case (JArr els)
      with False "1.IH"(1) [OF False JArr] show ?thesis
        by (subst nestingDepths.simps) fastforce
    qed (use False in \<open>simp_all add: nestingDepths.simps\<close>)
  qed
qed auto

lemma nestingDepths_below:
  "\<exists>rest. nestingDepths ex v d = d # rest \<and> (\<forall>x \<in> set rest. d < x)"
proof (cases "maxDepth ex < d")
  case True
  then show ?thesis by (simp add: nestingDepths.simps)
next
  case False
  show ?thesis
  proof (cases v)
    case (JObj entries)
    with False depths_lower(2) [of ex entries "d + 1"] show ?thesis
      by (subst nestingDepths.simps) fastforce
  next
    case (JArr els)
    with False depths_lower(3) [of ex "slice0 els (maxArraySample ex)" "d + 1"] show ?thesis
      by (subst nestingDepths.simps) fastforce
  qed (use False in \<open>simp_all add: nestingDepths.simps\<close>)
qed

lemma excavateWalk_below_root:
  assumes mem: "(i, d) \<in> set (calls (excavateWalk ex input n))" and ne: "i \<noteq> voId (n + 1)"
  shows "0 < d"
proof -
  define st where "st = excavateWalk ex input n"
  have inv: "walkInv ex n st"
    unfolding st_def by (rule excavateWalk_inv)
  obtain c cs where cs: "calls st = c # cs"
    using walkInv_nonempty [OF inv] by (cases "calls st") auto
  have "fst c = voId (Suc n)"
    using inv cs by (simp add: walkInv_def)
  with mem ne have tl: "(i, d) \<in> set cs"
    by (auto simp: cs st_def [symmetric])
  obtain rest where rest: "map snd (calls st) = 0 # rest" "\<forall>x \<in> set rest. 0 < x"
    unfolding st_def excavateWalk_depths using nestingDepths_below by blast
  then have "map snd cs = rest"
    by (simp add: cs)
  then have "d \<in> set rest"
    using tl by force
  with rest(2) show ?thesis by blast
qed

lemma example2:
  assumes "maxDepth ex = 1" and "1 \<le> maxArraySample ex"
  shows "excavate ex (JArr [JArr [JArr [JArr [JNum 1]]]]) n =
     (\<lparr>virtualObjects =
         [(emptyVO (voId (n + 1)) ''#'')\<lparr>vo_category := Some ''struct'', vo_type := Some ''array'',
             vo_elementTypes := Some [(''array'', 1)]\<rparr>,
          (emptyVO (voId (n + 2)) ''#[0]'')\<lparr>vo_category := Some ''struct'', vo_type := Some ''array'',
             vo_elementTypes := Some [(''array'', 1)]\<rparr>],
       relationships =
         [\<lparr>rel_from = voId (n + 1), rel_to = voId (n + 2), rel_kind = ''element'',
            rel_name = None, rel_index = Some 0\<rparr>,
          \<lparr>rel_from = voId (n + 2), rel_to = voId (n + 3), rel_kind = ''element'',
            rel_name = None, rel_index = Some 0\<rparr>],
       domSheets = Some []\<rparr>, n + 3)"
proof -
  have one: "slice0 [x] (maxArraySample ex) = [x]" for x :: json
    using assms(2) by (simp add: slice0_nonneg)
  show ?thesis
    using assms(1)
    by (simp add: excavate_def excavateWalk_def ownProperty_array_value del: ownProperty.simps)
      (simp add: genId_vo walkValue.simps Let_def one elementHistogram_def numToString_small
        digitChar_def numeral_3_eq_3)
qed

lemma walkInv_root:
  assumes "walkInv ex n0 st"
  shows "(voId (n0 + 1), 0) \<in> set (calls st)"
proof -
  obtain c rest where cs: "calls st = c # rest"
    using walkInv_nonempty [OF assms] by (cases "calls st") auto
  have "fst c = voId (Suc n0)" "snd c = 0"
    using assms cs by (simp_all add: walkInv_def)
  then have "c = (voId (n0 + 1), 0)"
    by (cases c) simp
  then show ?thesis by (simp add: cs)
qed

subsection \<open>Depth truncation\<close>

text \<open>
  C1. The walk of \<^verbatim>\<open>excavate\<close> enters the root at depth 0, and every invocation of
  \<^verbatim>\<open>_walkValue\<close> gets an id of its own. The depths of the invocations, in the order
  they are made, are the nesting depths of the nodes of the root value: a node at depth
  \<open>d \<le> maxDepth\<close> is followed by its entries, or its sampled elements, at depth \<open>d + 1\<close>,
  and a node deeper than \<open>maxDepth\<close> by none of its own. Every invocation has a virtual
  object carrying its id in the result if and only if its depth is at most \<open>maxDepth\<close>;
  every invocation but the root's has a positive depth and is the target of a
  relationship of the result. Every virtual object of the result belongs to an invocation
  within \<open>maxDepth\<close>, and every relationship leaves an invocation at some depth
  \<open>d \<le> maxDepth\<close> and reaches an invocation at depth \<open>d + 1\<close>; so a node entered deeper than
  \<open>maxDepth\<close> leaves a relationship whose target has no virtual object. An invocation
  deeper than \<open>maxDepth\<close> changes neither output array nor the counter. With
  \<open>maxDepth = 1\<close> the input \<^verbatim>\<open>{"a":{"b":{"c":1}}}\<close> gives exactly the struct objects of
  the root and of \<^verbatim>\<open>a\<close> and the relationships root to \<^verbatim>\<open>a\<close> and \<^verbatim>\<open>a\<close> to \<^verbatim>\<open>b\<close>; the id
  of \<^verbatim>\<open>b\<close> belongs to no virtual object and \<^verbatim>\<open>c\<close> is never reached. Likewise the
  number 1 wrapped in four arrays gives exactly the struct objects of the root and of its
  element and two element relationships, the second to an id with no virtual object.
\<close>

theorem excavate_depth_truncation:
  "(voId (n + 1), 0) \<in> set (calls (excavateWalk ex input n)) \<and>
   distinct (map fst (calls (excavateWalk ex input n))) \<and>
   map snd (calls (excavateWalk ex input n)) =
     nestingDepths ex
       (if truthy input then (case ownProperty input ''value'' of Some v \<Rightarrow> v | None \<Rightarrow> input)
        else input) 0 \<and>
   (\<forall>(i, d) \<in> set (calls (excavateWalk ex input n)).
       ((\<exists>vo \<in> set (virtualObjects (fst (excavate ex input n))). vo_id vo = i) \<longleftrightarrow> d \<le> maxDepth ex) \<and>
       (0 < d \<longrightarrow> (\<exists>r \<in> set (relationships (fst (excavate ex input n))). rel_to r = i)) \<and>
       (i \<noteq> voId (n + 1) \<longrightarrow> 0 < d)) \<and>
   (\<forall>vo \<in> set (virtualObjects (fst (excavate ex input n))).
       \<exists>d. d \<le> maxDepth ex \<and> (vo_id vo, d) \<in> set (calls (excavateWalk ex input n))) \<and>
   (\<forall>r \<in> set (relationships (fst (excavate ex input n))).
       \<exists>d. d \<le> maxDepth ex \<and>
         (rel_from r, d) \<in> set (calls (excavateWalk ex input n)) \<and>
         (rel_to r, d + 1) \<in> set (calls (excavateWalk ex input n))) \<and>
   (maxDepth ex < depth \<longrightarrow>
      vList (walkValue ex v i path depth st) = vList st \<and>
      relList (walkValue ex v i path depth st) = relList st \<and>
      nextId (walkValue ex v i path depth st) = nextId st) \<and>
   (maxDepth ex = 1 \<longrightarrow>
      excavate ex (JObj [(''a'', JObj [(''b'', JObj [(''c'', JNum 1)])])]) n =
        (\<lparr>virtualObjects =
            [(emptyVO (voId (n + 1)) ''#'')\<lparr>vo_category := Some ''struct'',
                vo_type := Some ''object'', vo_fields := Some [(''a'', ''object'')]\<rparr>,
             (emptyVO (voId (n + 2)) ''#.a'')\<lparr>vo_category := Some ''struct'',
                vo_type := Some ''object'', vo_fields := Some [(''b'', ''object'')]\<rparr>],
          relationships =
            [\<lparr>rel_from = voId (n + 1), rel_to = voId (n + 2), rel_kind = ''field'',
               rel_name = Some ''a'', rel_index = None\<rparr>,
             \<lparr>rel_from = voId (n + 2), rel_to = voId (n + 3), rel_kind = ''field'',
               rel_name = Some ''b'', rel_index = None\<rparr>],
          domSheets = Some []\<rparr>, n + 3) \<and>
      voId (n + 3) \<noteq> voId (n + 1) \<and> voId (n + 3) \<noteq> voId (n + 2)) \<and>
   (maxDepth ex = 1 \<and> 1 \<le> maxArraySample ex \<longrightarrow>
      excavate ex (JArr [JArr [JArr [JArr [JNum 1]]]]) n =
        (\<lparr>virtualObjects =
            [(emptyVO (voId (n + 1)) ''#'')\<lparr>vo_category := Some ''struct'',
                vo_type := Some ''array'', vo_elementTypes := Some [(''array'', 1)]\<rparr>,
             (emptyVO (voId (n + 2)) ''#[0]'')\<lparr>vo_category := Some ''struct'',
                vo_type := Some ''array'', vo_elementTypes := Some [(''array'', 1)]\<rparr>],
          relationships =
            [\<lparr>rel_from = voId (n + 1), rel_to = voId (n + 2), rel_kind = ''element'',
               rel_name = None, rel_index = Some 0\<rparr>,
             \<lparr>rel_from = voId (n + 2), rel_to = voId (n + 3), rel_kind = ''element'',
               rel_name = None, rel_index = Some 0\<rparr>],
          domSheets = Some []\<rparr>, n + 3))"
proof -
  define W where "W = excavateWalk ex input n"
  have inv: "walkInv ex n W"
    unfolding W_def by (rule excavateWalk_inv)
  have res: "virtualObjects (fst (excavate ex input n)) = vList W"
    "relationships (fst (excavate ex input n)) = relList W"
    by (simp_all add: excavate_def Let_def W_def)
  have root: "(voId (n + 1), 0) \<in> set (calls W)"
    by (rule walkInv_root [OF inv])
  have dist: "distinct (map fst (calls W))"
    by (rule walkInv_distinct [OF inv])
  have depths: "map snd (calls W) =
     nestingDepths ex
       (if truthy input then (case ownProperty input ''value'' of Some v \<Rightarrow> v | None \<Rightarrow> input)
        else input) 0"
    unfolding W_def by (rule excavateWalk_depths)
  have each: "\<forall>(i, d) \<in> set (calls W).
       ((\<exists>vo \<in> set (vList W). vo_id vo = i) \<longleftrightarrow> d \<le> maxDepth ex) \<and>
       (0 < d \<longrightarrow> (\<exists>r \<in> set (relList W). rel_to r = i)) \<and>
       (i \<noteq> voId (n + 1) \<longrightarrow> 0 < d)"
  proof (intro ballI)
    fix c
    assume c: "c \<in> set (calls W)"
    obtain i d where id: "c = (i, d)" by (cases c)
    have vo: "(\<exists>vo \<in> set (vList W). vo_id vo = i) \<longleftrightarrow> d \<le> maxDepth ex"
      using walkInv_vo_iff [OF inv] c id by simp
    have rel: "0 < d \<longrightarrow> (\<exists>r \<in> set (relList W). rel_to r = i)"
      using walkInv_rel [OF inv] c id by blast
    have below: "i \<noteq> voId (n + 1) \<longrightarrow> 0 < d"
      using excavateWalk_below_root [of i d ex input n] c id by (simp add: W_def)
    show "case c of (i, d) \<Rightarrow>
       ((\<exists>vo \<in> set (vList W). vo_id vo = i) \<longleftrightarrow> d \<le> maxDepth ex) \<and>
       (0 < d \<longrightarrow> (\<exists>r \<in> set (relList W). rel_to r = i)) \<and>
       (i \<noteq> voId (n + 1) \<longrightarrow> 0 < d)"
      using vo rel below by (simp add: id)
  qed
  have logged: "\<forall>vo \<in> set (vList W). \<exists>d. d \<le> maxDepth ex \<and> (vo_id vo, d) \<in> set (calls W)"
    using walkInv_logged [OF inv] by blast
  have rels: "\<forall>r \<in> set (relList W). \<exists>d. d \<le> maxDepth ex \<and>
         (rel_from r, d) \<in> set (calls W) \<and> (rel_to r, d + 1) \<in> set (calls W)"
    using excavateWalk_relDepths [of ex input n] unfolding relDepths_def W_def .
  have cut: "maxDepth ex < depth \<longrightarrow>
      vList (walkValue ex v i path depth st) = vList st \<and>
      relList (walkValue ex v i path depth st) = relList st \<and>
      nextId (walkValue ex v i path depth st) = nextId st"
    by (simp add: walkValue_truncated)
  have ids: "voId (n + 3) \<noteq> voId (n + 1)" "voId (n + 3) \<noteq> voId (n + 2)"
    using voId_inj [of "n + 3" "n + 1"] voId_inj [of "n + 3" "n + 2"] by auto
  show ?thesis
    unfolding res W_def [symmetric]
    using root dist depths each logged rels cut example1 [of ex n] example2 [of ex n] ids
    by blast
qed

theorem excavate_depth_truncation_witness:
  "(''vo_3'', 2) \<in> set (calls (excavateWalk \<lparr>maxDepth = 1, maxArraySample = 8, includeDom = False\<rparr>
        (JObj [(''a'', JArr [JArr [JNum 1], JNum 2])]) 0)) \<and>
   \<not> (\<exists>vo \<in> set (virtualObjects (fst (excavate \<lparr>maxDepth = 1, maxArraySample = 8, includeDom = False\<rparr>
        (JObj [(''a'', JArr [JArr [JNum 1], JNum 2])]) 0))). vo_id vo = ''vo_3'') \<and>
   (\<exists>r \<in> set (relationships (fst (excavate \<lparr>maxDepth = 1, maxArraySample = 8, includeDom = False\<rparr>
        (JObj [(''a'', JArr [JArr [JNum 1], JNum 2])]) 0))). rel_to r = ''vo_3'') \<and>
   (\<exists>vo \<in> set (virtualObjects (fst (excavate \<lparr>maxDepth = 1, maxArraySample = 8, includeDom = False\<rparr>
        (JObj [(''a'', JArr [JArr [JNum 1], JNum 2])]) 0))). vo_id vo = ''vo_2'') \<and>
   (\<exists>d. d \<le> 1 \<and>
      (''vo_2'', d) \<in> set (calls (excavateWalk \<lparr>maxDepth = 1, maxArraySample = 8, includeDom = False\<rparr>
        (JObj [(''a'', JArr [JArr [JNum 1], JNum 2])]) 0)) \<and>
      (''vo_3'', d + 1) \<in> set (calls (excavateWalk \<lparr>maxDepth = 1, maxArraySample = 8, includeDom = False\<rparr>
        (JObj [(''a'', JArr [JArr [JNum 1], JNum 2])]) 0))) \<and>
   map snd (calls (excavateWalk \<lparr>maxDepth = 1, maxArraySample = 8, includeDom = False\<rparr>
        (JObj [(''a'', JArr [JArr [JNum 1], JNum 2])]) 0)) = [0, 1, 2, 2] \<and>
   vList (walkValue \<lparr>maxDepth = 1, maxArraySample = 8, includeDom = False\<rparr> (JArr [JNum 1])
        ''vo_3'' ''#.a[0]'' 2 \<lparr>nextId = 3, vList = [], relList = [], calls = []\<rparr>) = [] \<and>
   map vo_path (virtualObjects (fst (excavate \<lparr>maxDepth = 1, maxArraySample = 8, includeDom = False\<rparr>
        (JArr [JArr [JArr [JArr [JNum 1]]]]) 0))) = [''#'', ''#[0]''] \<and>
   map vo_path (virtualObjects (fst (excavate \<lparr>maxDepth = 1, maxArraySample = 8, includeDom = False\<rparr>
        (JObj [(''a'', JObj [(''b'', JObj [(''c'', JNum 1)])])]) 0))) = [''#'', ''#.a''] \<and>
   (\<exists>d. d \<le> 1 \<and>
      (vo_id (last (virtualObjects (fst (excavate \<lparr>maxDepth = 1, maxArraySample = 8, includeDom = False\<rparr>
         (JObj [(''a'', JArr [JArr [JNum 1], JNum 2])]) 0)))), d)
       \<in> set (calls (excavateWalk \<lparr>maxDepth = 1, maxArraySample = 8, includeDom = False\<rparr>
        (JObj [(''a'', JArr [JArr [JNum 1], JNum 2])]) 0)))"
proof -
  let ?ex = "\<lparr>maxDepth = 1, maxArraySample = 8, includeDom = False\<rparr>"
  let ?input = "JObj [(''a'', JArr [JArr [JNum 1], JNum 2])]"
  let ?st = "\<lparr>nextId = 3, vList = [], relList = [], calls = []\<rparr>"
  note T = excavate_depth_truncation [where n = 0 and ex = ?ex and input = ?input and depth = 2
      and v = "JArr [JNum 1]" and i = "''vo_3''" and path = "''#.a[0]''" and st = ?st]
  note each = T [THEN conjunct2, THEN conjunct2, THEN conjunct2, THEN conjunct1]
  note rels = T [THEN conjunct2, THEN conjunct2, THEN conjunct2, THEN conjunct2, THEN conjunct2,
      THEN conjunct1]
  note cut = T [THEN conjunct2, THEN conjunct2, THEN conjunct2, THEN conjunct2, THEN conjunct2,
      THEN conjunct2, THEN conjunct1]
  note logged = T [THEN conjunct2, THEN conjunct2, THEN conjunct2, THEN conjunct2, THEN conjunct1]
  note obj = T [THEN conjunct2, THEN conjunct2, THEN conjunct2, THEN conjunct2, THEN conjunct2,
      THEN conjunct2, THEN conjunct2, THEN conjunct1]
  note arr = T [THEN conjunct2, THEN conjunct2, THEN conjunct2, THEN conjunct2, THEN conjunct2,
      THEN conjunct2, THEN conjunct2, THEN conjunct2]
  have mem3: "(''vo_3'', 2) \<in> set (calls (excavateWalk ?ex ?input 0))"
    by code_simp
  have mem2: "(''vo_2'', 1) \<in> set (calls (excavateWalk ?ex ?input 0))"
    by code_simp
  have r: "\<lparr>rel_from = ''vo_2'', rel_to = ''vo_3'', rel_kind = ''element'', rel_name = None,
      rel_index = Some 0\<rparr> \<in> set (relationships (fst (excavate ?ex ?input 0)))"
    by code_simp
  have c2: "\<not> (\<exists>vo \<in> set (virtualObjects (fst (excavate ?ex ?input 0))). vo_id vo = ''vo_3'')"
    and c3: "\<exists>r \<in> set (relationships (fst (excavate ?ex ?input 0))). rel_to r = ''vo_3''"
    using each [THEN bspec, OF mem3] by simp_all
  have c4: "\<exists>vo \<in> set (virtualObjects (fst (excavate ?ex ?input 0))). vo_id vo = ''vo_2''"
    using each [THEN bspec, OF mem2] by simp
  have c5: "\<exists>d. d \<le> 1 \<and> (''vo_2'', d) \<in> set (calls (excavateWalk ?ex ?input 0)) \<and>
      (''vo_3'', d + 1) \<in> set (calls (excavateWalk ?ex ?input 0))"
    using rels [THEN bspec, OF r] by simp
  have nd: "nestingDepths ?ex ?input 0 = [0, 1, 2, 2]"
    by code_simp
  have c6: "map snd (calls (excavateWalk ?ex ?input 0)) = [0, 1, 2, 2]"
    using T [THEN conjunct2, THEN conjunct2, THEN conjunct1] by (simp add: nd)
  have c7: "vList (walkValue ?ex (JArr [JNum 1]) ''vo_3'' ''#.a[0]'' 2 ?st) = []"
    using cut by simp
  have c8: "map vo_path (virtualObjects (fst (excavate ?ex (JArr [JArr [JArr [JArr [JNum 1]]]]) 0))) =
      [''#'', ''#[0]'']"
    using arr by (simp add: emptyVO_def)
  have c9: "map vo_path (virtualObjects (fst (excavate ?ex
      (JObj [(''a'', JObj [(''b'', JObj [(''c'', JNum 1)])])]) 0))) = [''#'', ''#.a'']"
    using obj by (simp add: emptyVO_def)
  have vo: "last (virtualObjects (fst (excavate ?ex ?input 0))) \<in>
      set (virtualObjects (fst (excavate ?ex ?input 0)))"
    by code_simp
  have c10: "\<exists>d. d \<le> 1 \<and> (vo_id (last (virtualObjects (fst (excavate ?ex ?input 0)))), d)
       \<in> set (calls (excavateWalk ?ex ?input 0))"
    using logged [THEN bspec, OF vo] by simp
  show ?thesis
    by (intro conjI) (rule mem3 c2 c3 c4 c5 c6 c7 c8 c9 c10)+
qed

subsection \<open>Array sampling\<close>

lemma slice0_length: "0 \<le> m \<Longrightarrow> length (slice0 xs m) = min (length xs) (nat m)"
  by (simp add: slice0_nonneg)

lemma bump_count: "histCount (bump et h) t = histCount h t + (if t = et then 1 else 0)"
  by (induction et h rule: bump.induct) (auto simp: histCount_def)

lemma bump_positive: "\<forall>(k, c) \<in> set h. 0 < c \<Longrightarrow> \<forall>(k, c) \<in> set (bump et h). 0 < c"
  by (induction et h rule: bump.induct) auto

lemma hist_foldl_count:
  "histCount (foldl (\<lambda>h el. bump (typeOf el) h) h0 xs) t =
     histCount h0 t + length (filter (\<lambda>el. typeOf el = t) xs)"
  by (induction xs arbitrary: h0) (auto simp: bump_count)

lemma hist_foldl_positive:
  "\<forall>(k, c) \<in> set h0. 0 < c \<Longrightarrow> \<forall>(k, c) \<in> set (foldl (\<lambda>h el. bump (typeOf el) h) h0 xs). 0 < c"
proof (induction xs arbitrary: h0)
  case Nil
  then show ?case by simp
next
  case (Cons x xs)
  show ?case
    using Cons.IH [OF bump_positive [OF Cons.prems, of "typeOf x"]] by simp
qed

lemma elementHistogram_lookup:
  "map_of (elementHistogram xs) t =
     (let c = length (filter (\<lambda>el. typeOf el = t) xs) in if c = 0 then None else Some c)"
proof -
  have cnt: "histCount (elementHistogram xs) t = length (filter (\<lambda>el. typeOf el = t) xs)"
    using hist_foldl_count [of "[]" xs t] by (simp add: elementHistogram_def histCount_def)
  have pos: "\<forall>(k, c) \<in> set (elementHistogram xs). 0 < c"
    using hist_foldl_positive [of "[]" xs] by (simp add: elementHistogram_def)
  show ?thesis
  proof (cases "map_of (elementHistogram xs) t")
    case None
    with cnt show ?thesis by (simp add: histCount_def Let_def)
  next
    case (Some c)
    then have "(t, c) \<in> set (elementHistogram xs)" by (rule map_of_SomeD)
    with pos have "0 < c" by auto
    with cnt Some show ?thesis by (simp add: histCount_def Let_def)
  qed
qed

lemma extends_refl: "extends st st"
  by (simp add: extends_def)

lemma take_prefix_trans:
  assumes "take (length xs) ys = xs" "length xs \<le> length ys" "take (length ys) zs = ys"
  shows "take (length xs) zs = xs"
proof -
  have "take (length xs) zs = take (length xs) (take (length ys) zs)"
    using assms(2) by (simp add: min_def)
  then show ?thesis using assms(1,3) by simp
qed

lemma extends_trans:
  assumes "extends a b" "extends b c"
  shows "extends a c"
proof -
  have "take (length (vList a)) (vList c) = vList a"
    using assms by (simp add: extends_def take_prefix_trans [of "vList a" "vList b" "vList c"])
  moreover have "take (length (relList a)) (relList c) = relList a"
    using assms by (simp add: extends_def take_prefix_trans [of "relList a" "relList b" "relList c"])
  ultimately show ?thesis
    using assms by (simp add: extends_def)
qed

lemma extends_calls: "extends st (st\<lparr>calls := cs\<rparr>)"
  by (simp add: extends_def)

lemma extends_push_vo: "extends st (st\<lparr>vList := vList st @ [vo]\<rparr>)"
  by (simp add: extends_def)

lemma extends_gen_rel:
  "extends st (st\<lparr>nextId := Suc (nextId st), relList := relList st @ [r]\<rparr>)"
  by (simp add: extends_def)

lemma walk_extends:
  "extends st (walkValue ex v i path depth st)"
  "extends st1 (walkFields ex kvs i1 path1 depth1 st1)"
  "extends st2 (walkElements ex els idx i2 path2 depth2 st2)"
proof (induction ex v i path depth st and ex kvs i1 path1 depth1 st1 and ex els idx i2 path2 depth2 st2
    rule: walkValue_walkFields_walkElements.induct)
  case (1 ex v i path depth st0)
  let ?st = "st0\<lparr>calls := calls st0 @ [(i, depth)]\<rparr>"
  have enter: "extends st0 ?st" by (rule extends_calls)
  show ?case
  proof (cases "maxDepth ex < depth")
    case True
    with enter show ?thesis by (simp add: walkValue.simps)
  next
    case False
    have push: "extends st0 (?st\<lparr>vList := vList ?st @ [vo]\<rparr>)" for vo
      by (simp add: extends_def)
    show ?thesis
    proof (cases v)
      case (JObj entries)
      show ?thesis
        using extends_trans [OF push "1.IH"(2) [OF refl False JObj]] False JObj
        by (simp add: walkValue.simps)
    next
      case (JArr els)
      show ?thesis
        using extends_trans [OF push "1.IH"(1) [OF refl False JArr refl]] False JArr
        by (simp add: walkValue.simps Let_def)
    qed (use False push in \<open>simp_all add: walkValue.simps\<close>)
  qed
next
  case (2 ex i path depth st)
  show ?case by (simp add: extends_refl)
next
  case (3 ex k v rest i path depth st)
  define y where "y = st\<lparr>nextId := Suc (nextId st)\<rparr>"
  define xb where "xb = y\<lparr>relList := relList y @
      [\<lparr>rel_from = i, rel_to = voId (Suc (nextId st)), rel_kind = ''field'',
        rel_name = Some k, rel_index = None\<rparr>]\<rparr>"
  have gen: "(voId (Suc (nextId st)), y) = genId ''vo'' st"
    by (simp add: genId_vo y_def)
  have step: "extends st xb"
    by (simp add: xb_def y_def extends_def)
  show ?case
    using extends_trans [OF extends_trans [OF step "3.IH"(1) [OF refl gen xb_def]]
        "3.IH"(2) [OF refl gen xb_def refl]]
    by (simp add: gen [symmetric] xb_def)
next
  case (4 ex idx i path depth st)
  show ?case by (simp add: extends_refl)
next
  case (5 ex el rest idx i path depth st)
  define y where "y = st\<lparr>nextId := Suc (nextId st)\<rparr>"
  define xb where "xb = y\<lparr>relList := relList y @
      [\<lparr>rel_from = i, rel_to = voId (Suc (nextId st)), rel_kind = ''element'',
        rel_name = None, rel_index = Some idx\<rparr>]\<rparr>"
  have gen: "(voId (Suc (nextId st)), y) = genId ''vo'' st"
    by (simp add: genId_vo y_def)
  have step: "extends st xb"
    by (simp add: xb_def y_def extends_def)
  show ?case
    using extends_trans [OF extends_trans [OF step "5.IH"(1) [OF refl gen xb_def]]
        "5.IH"(2) [OF refl gen xb_def refl]]
    by (simp add: gen [symmetric] xb_def)
qed

lemma fresh_mono: "fresh i st \<Longrightarrow> nextId st \<le> nextId st' \<Longrightarrow> fresh i st'"
  by (auto simp: fresh_def)

lemma walk_other_rels:
  "fresh i0 st \<Longrightarrow> i \<noteq> i0 \<Longrightarrow> relsFrom i0 (walkValue ex v i path depth st) = relsFrom i0 st"
  "fresh i0 st1 \<Longrightarrow> i1 \<noteq> i0 \<Longrightarrow> relsFrom i0 (walkFields ex kvs i1 path1 depth1 st1) = relsFrom i0 st1"
  "fresh i0 st2 \<Longrightarrow> i2 \<noteq> i0 \<Longrightarrow> relsFrom i0 (walkElements ex els idx i2 path2 depth2 st2) = relsFrom i0 st2"
proof (induction ex v i path depth st and ex kvs i1 path1 depth1 st1 and ex els idx i2 path2 depth2 st2
    rule: walkValue_walkFields_walkElements.induct)
  case (1 ex v i path depth st0)
  let ?st = "st0\<lparr>calls := calls st0 @ [(i, depth)]\<rparr>"
  show ?case
  proof (cases "maxDepth ex < depth")
    case True
    then show ?thesis by (simp add: walkValue.simps relsFrom_def)
  next
    case False
    have fr: "fresh i0 (?st\<lparr>vList := vList ?st @ [vo]\<rparr>)" for vo
      using "1.prems"(1) by (simp add: fresh_def)
    have same: "relsFrom i0 (?st\<lparr>vList := vList ?st @ [vo]\<rparr>) = relsFrom i0 st0" for vo
      by (simp add: relsFrom_def)
    show ?thesis
    proof (cases v)
      case (JObj entries)
      show ?thesis
        using "1.IH"(2) [OF refl False JObj fr "1.prems"(2)] same False JObj
        by (simp add: walkValue.simps)
    next
      case (JArr els)
      show ?thesis
        using "1.IH"(1) [OF refl False JArr refl fr "1.prems"(2)] same False JArr
        by (simp add: walkValue.simps Let_def)
    qed (use False same in \<open>simp_all add: walkValue.simps\<close>)
  qed
next
  case (2 ex i path depth st)
  show ?case by simp
next
  case (3 ex k v rest i path depth st)
  define y where "y = st\<lparr>nextId := Suc (nextId st)\<rparr>"
  define xb where "xb = y\<lparr>relList := relList y @
      [\<lparr>rel_from = i, rel_to = voId (Suc (nextId st)), rel_kind = ''field'',
        rel_name = Some k, rel_index = None\<rparr>]\<rparr>"
  define xc where "xc = walkValue ex v (voId (Suc (nextId st))) (path @ ''.'' @ k) (depth + 1) xb"
  have gen: "(voId (Suc (nextId st)), y) = genId ''vo'' st"
    by (simp add: genId_vo y_def)
  have child: "voId (Suc (nextId st)) \<noteq> i0"
    using "3.prems"(1) by (simp add: fresh_def)
  have frb: "fresh i0 xb"
    using "3.prems"(1) by (simp add: fresh_def xb_def y_def)
  have relb: "relsFrom i0 xb = relsFrom i0 st"
    using "3.prems"(2) by (simp add: relsFrom_def xb_def y_def)
  have relc: "relsFrom i0 xc = relsFrom i0 xb"
    unfolding xc_def by (rule "3.IH"(1) [OF refl gen xb_def frb child])
  have frc: "fresh i0 xc"
    using fresh_mono [OF frb] walk_extends(1) [of xb ex v "voId (Suc (nextId st))" "path @ ''.'' @ k" "depth + 1"]
    by (simp add: xc_def extends_def)
  show ?case
    using "3.IH"(2) [OF refl gen xb_def xc_def frc "3.prems"(2)] relc relb
    by (simp add: gen [symmetric] xb_def xc_def)
next
  case (4 ex idx i path depth st)
  show ?case by simp
next
  case (5 ex el rest idx i path depth st)
  define y where "y = st\<lparr>nextId := Suc (nextId st)\<rparr>"
  define xb where "xb = y\<lparr>relList := relList y @
      [\<lparr>rel_from = i, rel_to = voId (Suc (nextId st)), rel_kind = ''element'',
        rel_name = None, rel_index = Some idx\<rparr>]\<rparr>"
  define xc where "xc = walkValue ex el (voId (Suc (nextId st)))
      (path @ ''['' @ numToString 10 idx @ '']'') (depth + 1) xb"
  have gen: "(voId (Suc (nextId st)), y) = genId ''vo'' st"
    by (simp add: genId_vo y_def)
  have child: "voId (Suc (nextId st)) \<noteq> i0"
    using "5.prems"(1) by (simp add: fresh_def)
  have frb: "fresh i0 xb"
    using "5.prems"(1) by (simp add: fresh_def xb_def y_def)
  have relb: "relsFrom i0 xb = relsFrom i0 st"
    using "5.prems"(2) by (simp add: relsFrom_def xb_def y_def)
  have relc: "relsFrom i0 xc = relsFrom i0 xb"
    unfolding xc_def by (rule "5.IH"(1) [OF refl gen xb_def frb child])
  have frc: "fresh i0 xc"
    using fresh_mono [OF frb] walk_extends(1) [of xb ex el "voId (Suc (nextId st))"
        "path @ ''['' @ numToString 10 idx @ '']''" "depth + 1"]
    by (simp add: xc_def extends_def)
  show ?case
    using "5.IH"(2) [OF refl gen xb_def xc_def frc "5.prems"(2)] relc relb
    by (simp add: gen [symmetric] xb_def xc_def)
qed

lemma fresh_voId: "j \<le> nextId st \<Longrightarrow> fresh (voId j) st"
  using voId_inj by (fastforce simp: fresh_def)

lemma walkElements_rels:
  "fresh i0 st \<Longrightarrow>
   map (\<lambda>r. (rel_kind r, rel_index r)) (relsFrom i0 (walkElements ex els idx i0 path depth st)) =
     map (\<lambda>r. (rel_kind r, rel_index r)) (relsFrom i0 st) @
     map (\<lambda>k. (''element'', Some k)) [idx..<idx + length els]"
proof (induction els arbitrary: idx st)
  case Nil
  show ?case by simp
next
  case (Cons el rest)
  define xb where "xb = st\<lparr>nextId := Suc (nextId st), relList := relList st @
      [\<lparr>rel_from = i0, rel_to = voId (Suc (nextId st)), rel_kind = ''element'',
        rel_name = None, rel_index = Some idx\<rparr>]\<rparr>"
  define xc where "xc = walkValue ex el (voId (Suc (nextId st)))
      (path @ ''['' @ numToString 10 idx @ '']'') (depth + 1) xb"
  have child: "voId (Suc (nextId st)) \<noteq> i0"
    using Cons.prems by (simp add: fresh_def)
  have frb: "fresh i0 xb"
    using Cons.prems by (simp add: fresh_def xb_def)
  have relb: "relsFrom i0 xb = relsFrom i0 st @
      [\<lparr>rel_from = i0, rel_to = voId (Suc (nextId st)), rel_kind = ''element'',
        rel_name = None, rel_index = Some idx\<rparr>]"
    by (simp add: relsFrom_def xb_def)
  have relc: "relsFrom i0 xc = relsFrom i0 xb"
    unfolding xc_def by (rule walk_other_rels(1) [OF frb child])
  have frc: "fresh i0 xc"
    using fresh_mono [OF frb] walk_extends(1) [of xb ex el "voId (Suc (nextId st))"
        "path @ ''['' @ numToString 10 idx @ '']''" "depth + 1"]
    by (simp add: xc_def extends_def)
  have unfold: "walkElements ex (el # rest) idx i0 path depth st =
      walkElements ex rest (idx + 1) i0 path depth xc"
    by (simp add: genId_vo xb_def xc_def)
  have "[idx..<idx + Suc (length rest)] = idx # [Suc idx..<idx + Suc (length rest)]"
    by (rule upt_conv_Cons) simp
  then have upt: "[idx..<idx + length (el # rest)] = idx # [idx + 1..<idx + 1 + length rest]"
    by simp
  show ?case
    unfolding unfold upt using Cons.IH [OF frc, of "idx + 1"] by (simp add: relc relb)
qed

lemma walkValue_array:
  assumes "\<not> maxDepth ex < depth"
  shows "walkValue ex (JArr els) i path depth st =
     walkElements ex (slice0 els (maxArraySample ex)) 0 i path depth
       (st\<lparr>calls := calls st @ [(i, depth)],
           vList := vList st @
             [(emptyVO i path)\<lparr>vo_category := Some ''struct'', vo_type := Some ''array'',
                vo_elementTypes := Some (elementHistogram (slice0 els (maxArraySample ex)))\<rparr>]\<rparr>)"
  using assms by (simp add: walkValue.simps Let_def)

lemma take_min_length: "take (min (length xs) k) xs = take k xs"
  by (cases "k \<le> length xs") (simp_all add: min_def)

lemma slice0_idem: "0 \<le> m \<Longrightarrow> slice0 (slice0 xs m) m = slice0 xs m"
  by (simp add: slice0_nonneg)

lemma example_array:
  assumes "maxArraySample ex = 2" "1 \<le> maxDepth ex"
  shows "excavate ex (JArr [JNum 1, JNum 2, JNum 3, JNum 4]) n =
     (\<lparr>virtualObjects =
         [(emptyVO (voId (n + 1)) ''#'')\<lparr>vo_category := Some ''struct'', vo_type := Some ''array'',
             vo_elementTypes := Some [(''number'', 2)]\<rparr>,
          (emptyVO (voId (n + 2)) ''#[0]'')\<lparr>vo_category := Some ''value'',
             vo_type := Some ''number'', vo_valuePreview := Some (JNum 1)\<rparr>,
          (emptyVO (voId (n + 3)) ''#[1]'')\<lparr>vo_category := Some ''value'',
             vo_type := Some ''number'', vo_valuePreview := Some (JNum 2)\<rparr>],
       relationships =
         [\<lparr>rel_from = voId (n + 1), rel_to = voId (n + 2), rel_kind = ''element'',
            rel_name = None, rel_index = Some 0\<rparr>,
          \<lparr>rel_from = voId (n + 1), rel_to = voId (n + 3), rel_kind = ''element'',
            rel_name = None, rel_index = Some 1\<rparr>],
       domSheets = Some []\<rparr>, n + 3)"
proof -
  have sl: "slice0 [JNum 1, JNum 2, JNum 3, JNum 4] 2 = [JNum 1, JNum 2]"
    by (simp add: slice0_def)
  have d0: "\<not> maxDepth ex < 0" and d1: "\<not> maxDepth ex < 1"
    using assms(2) by simp_all
  have digits: "numToString 10 0 = ''0''" "numToString 10 (Suc 0) = ''1''"
    by (simp_all add: numToString_small digitChar_def)
  show ?thesis
    using d0 d1
    by (simp add: excavate_def excavateWalk_def genId_vo walkValue.simps Let_def assms(1) sl
        elementHistogram_def digits numeral_3_eq_3 ownProperty_array_value
        del: ownProperty.simps)
qed

text \<open>
  C7. An array node entered within the depth limit, under an id the counter has already
  handed out and with a non-negative \<open>maxArraySample\<close>, emits as its first new virtual
  object the struct object of the array, whose \<open>elementTypes\<close> is the histogram of the first
  \<open>min (length els) maxArraySample\<close> elements only (each type with the number of sampled
  elements of that type); the relationships it adds from its own id are exactly that many,
  of kind \<^verbatim>\<open>element\<close>, with the indices 0, 1, ... in order; and the walk is the same as
  the walk of the array cut to the sample, so later elements add nothing. With
  \<open>maxArraySample = 2\<close> the input \<^verbatim>\<open>[1,2,3,4]\<close> gives the array object with
  \<^verbatim>\<open>{number: 2}\<close>, two value objects and two element relationships, indices 0 and 1.
\<close>

theorem array_sampling:
  assumes "0 \<le> maxArraySample ex" and "depth \<le> maxDepth ex" and "j \<le> nextId st"
  shows "(let m = min (length els) (nat (maxArraySample ex));
              st' = walkValue ex (JArr els) (voId j) path depth st
          in length (vList st) < length (vList st') \<and>
             vList st' ! length (vList st) =
               (emptyVO (voId j) path)\<lparr>vo_category := Some ''struct'', vo_type := Some ''array'',
                  vo_elementTypes := Some (elementHistogram (take m els))\<rparr> \<and>
             (\<forall>t. map_of (elementHistogram (take m els)) t =
                (let c = length (filter (\<lambda>el. typeOf el = t) (take m els))
                 in if c = 0 then None else Some c)) \<and>
             map (\<lambda>r. (rel_kind r, rel_index r)) (filter (\<lambda>r. rel_from r = voId j) (relList st')) =
               map (\<lambda>r. (rel_kind r, rel_index r)) (filter (\<lambda>r. rel_from r = voId j) (relList st)) @
               map (\<lambda>k. (''element'', Some k)) [0..<m] \<and>
             st' = walkValue ex (JArr (take m els)) (voId j) path depth st) \<and>
         (maxArraySample ex = 2 \<and> 1 \<le> maxDepth ex \<longrightarrow>
            excavate ex (JArr [JNum 1, JNum 2, JNum 3, JNum 4]) n =
              (\<lparr>virtualObjects =
                  [(emptyVO (voId (n + 1)) ''#'')\<lparr>vo_category := Some ''struct'',
                      vo_type := Some ''array'', vo_elementTypes := Some [(''number'', 2)]\<rparr>,
                   (emptyVO (voId (n + 2)) ''#[0]'')\<lparr>vo_category := Some ''value'',
                      vo_type := Some ''number'', vo_valuePreview := Some (JNum 1)\<rparr>,
                   (emptyVO (voId (n + 3)) ''#[1]'')\<lparr>vo_category := Some ''value'',
                      vo_type := Some ''number'', vo_valuePreview := Some (JNum 2)\<rparr>],
                relationships =
                  [\<lparr>rel_from = voId (n + 1), rel_to = voId (n + 2), rel_kind = ''element'',
                     rel_name = None, rel_index = Some 0\<rparr>,
                   \<lparr>rel_from = voId (n + 1), rel_to = voId (n + 3), rel_kind = ''element'',
                     rel_name = None, rel_index = Some 1\<rparr>],
                domSheets = Some []\<rparr>, n + 3))"
proof -
  define m where "m = min (length els) (nat (maxArraySample ex))"
  define sampled where "sampled = slice0 els (maxArraySample ex)"
  define vo where "vo = (emptyVO (voId j) path)\<lparr>vo_category := Some ''struct'',
      vo_type := Some ''array'', vo_elementTypes := Some (elementHistogram sampled)\<rparr>"
  define st1 where "st1 = st\<lparr>calls := calls st @ [(voId j, depth)], vList := vList st @ [vo]\<rparr>"
  define st' where "st' = walkValue ex (JArr els) (voId j) path depth st"
  have deep: "\<not> maxDepth ex < depth" using assms(2) by simp
  have sampled: "sampled = take m els"
    using assms(1) by (simp add: sampled_def m_def slice0_nonneg take_min_length)
  have st': "st' = walkElements ex sampled 0 (voId j) path depth st1"
    unfolding st'_def st1_def vo_def sampled_def by (rule walkValue_array [OF deep])
  have ext: "extends st1 st'"
    unfolding st' by (rule walk_extends(3))
  have len: "length (vList st) < length (vList st')"
    using ext by (simp add: extends_def st1_def)
  have "vList st' ! length (vList st) = take (length (vList st1)) (vList st') ! length (vList st)"
    by (simp add: st1_def)
  also have "\<dots> = vList st1 ! length (vList st)"
    using ext by (simp add: extends_def)
  also have "\<dots> = vo"
    by (simp add: st1_def)
  finally have first: "vList st' ! length (vList st) = vo" .
  have fr: "fresh (voId j) st1"
    using fresh_voId [OF assms(3)] by (simp add: fresh_def st1_def)
  have rels: "map (\<lambda>r. (rel_kind r, rel_index r)) (relsFrom (voId j) st') =
      map (\<lambda>r. (rel_kind r, rel_index r)) (relsFrom (voId j) st) @
      map (\<lambda>k. (''element'', Some k)) [0..<m]"
    using walkElements_rels [OF fr, of ex sampled 0 path depth]
    by (simp add: st' sampled m_def relsFrom_def st1_def)
  have "slice0 (take m els) (maxArraySample ex) = take m els"
    using slice0_idem [OF assms(1), of els] assms(1) by (simp add: slice0_nonneg m_def take_min_length)
  then have same: "st' = walkValue ex (JArr (take m els)) (voId j) path depth st"
    using walkValue_array [OF deep, of "take m els" "voId j" path st]
    by (simp add: st' st1_def vo_def sampled)
  have general: "length (vList st) < length (vList st') \<and>
      vList st' ! length (vList st) =
        (emptyVO (voId j) path)\<lparr>vo_category := Some ''struct'', vo_type := Some ''array'',
           vo_elementTypes := Some (elementHistogram (take m els))\<rparr> \<and>
      (\<forall>t. map_of (elementHistogram (take m els)) t =
         (let c = length (filter (\<lambda>el. typeOf el = t) (take m els))
          in if c = 0 then None else Some c)) \<and>
      map (\<lambda>r. (rel_kind r, rel_index r)) (filter (\<lambda>r. rel_from r = voId j) (relList st')) =
        map (\<lambda>r. (rel_kind r, rel_index r)) (filter (\<lambda>r. rel_from r = voId j) (relList st)) @
        map (\<lambda>k. (''element'', Some k)) [0..<m] \<and>
      st' = walkValue ex (JArr (take m els)) (voId j) path depth st"
    using len first rels same elementHistogram_lookup
    by (simp add: vo_def sampled relsFrom_def)
  show ?thesis
    using general example_array [of ex n]
    unfolding Let_def m_def [symmetric] st'_def [symmetric]
    by blast
qed

theorem array_sampling_witness:
  "(0 :: int) \<le> maxArraySample \<lparr>maxDepth = 6, maxArraySample = 2, includeDom = False\<rparr> \<and>
   (0 :: int) \<le> maxDepth \<lparr>maxDepth = 6, maxArraySample = 2, includeDom = False\<rparr> \<and>
   (1 :: nat) \<le> nextId \<lparr>nextId = 1, vList = [], relList = [], calls = []\<rparr> \<and>
   vo_elementTypes
     (vList (walkValue \<lparr>maxDepth = 6, maxArraySample = 2, includeDom = False\<rparr>
        (JArr [JNum 1, JNum 2, JNum 3, JNum 4]) (voId 1) ''#'' 0
        \<lparr>nextId = 1, vList = [], relList = [], calls = []\<rparr>) ! 0) = Some [(''number'', 2)] \<and>
   map (\<lambda>r. (rel_kind r, rel_index r))
     (filter (\<lambda>r. rel_from r = voId 1)
        (relList (walkValue \<lparr>maxDepth = 6, maxArraySample = 2, includeDom = False\<rparr>
           (JArr [JNum 1, JNum 2, JNum 3, JNum 4]) (voId 1) ''#'' 0
           \<lparr>nextId = 1, vList = [], relList = [], calls = []\<rparr>))) =
     [(''element'', Some 0), (''element'', Some 1)]"
proof -
  let ?ex = "\<lparr>maxDepth = 6, maxArraySample = 2, includeDom = False\<rparr>"
  let ?st = "\<lparr>nextId = 1, vList = [], relList = [], calls = []\<rparr>"
  have h1: "0 \<le> maxArraySample ?ex" by simp
  have h2: "0 \<le> maxDepth ?ex" by simp
  have h3: "1 \<le> nextId ?st" by simp
  note general = array_sampling [OF h1 h2 h3, of "[JNum 1, JNum 2, JNum 3, JNum 4]" "''#''" 0,
      unfolded Let_def, THEN conjunct1]
  have first: "vo_elementTypes
     (vList (walkValue ?ex (JArr [JNum 1, JNum 2, JNum 3, JNum 4]) (voId 1) ''#'' 0 ?st) ! 0) =
     Some [(''number'', 2)]"
    using general [THEN conjunct2, THEN conjunct1] by (simp add: elementHistogram_def)
  have rels: "map (\<lambda>r. (rel_kind r, rel_index r))
     (filter (\<lambda>r. rel_from r = voId 1)
        (relList (walkValue ?ex (JArr [JNum 1, JNum 2, JNum 3, JNum 4]) (voId 1) ''#'' 0 ?st))) =
     [(''element'', Some 0), (''element'', Some 1)]"
    using general [THEN conjunct2, THEN conjunct2, THEN conjunct2, THEN conjunct1]
    by (simp add: upt_rec)
  show ?thesis
    using first rels by simp
qed

subsection \<open>The wrapper with a value key\<close>

text \<open>
  C10. When the input of \<^verbatim>\<open>excavate\<close> is an object with an own property \<^verbatim>\<open>value\<close>, the
  walk starts at that property's value, under the root id and the root path; the other
  keys of the input play no part, and the input object gets no virtual object of its own.
  \<^verbatim>\<open>excavate({"value": 5})\<close> gives the single value object of 5.
\<close>

theorem excavate_unwraps_value:
  assumes "map_of kvs ''value'' = Some v"
  shows "excavateWalk ex (JObj kvs) n =
           walkValue ex v (voId (n + 1)) ''#'' 0 \<lparr>nextId = n + 1, vList = [], relList = [], calls = []\<rparr> \<and>
         excavate ex (JObj kvs) n = excavate ex (JObj [(''value'', v)]) n \<and>
         (0 \<le> maxDepth ex \<longrightarrow>
            excavate ex (JObj [(''value'', JNum 5)]) n =
              (\<lparr>virtualObjects =
                  [(emptyVO (voId (n + 1)) ''#'')\<lparr>vo_category := Some ''value'',
                      vo_type := Some ''number'', vo_valuePreview := Some (JNum 5)\<rparr>],
                relationships = [], domSheets = Some []\<rparr>, n + 1))"
proof (intro conjI impI)
  show w: "excavateWalk ex (JObj kvs) n =
      walkValue ex v (voId (n + 1)) ''#'' 0 \<lparr>nextId = n + 1, vList = [], relList = [], calls = []\<rparr>"
    using assms by (simp add: excavateWalk_def genId_vo)
  have "excavateWalk ex (JObj [(''value'', v)]) n =
      walkValue ex v (voId (n + 1)) ''#'' 0 \<lparr>nextId = n + 1, vList = [], relList = [], calls = []\<rparr>"
    by (simp add: excavateWalk_def genId_vo)
  with w show "excavate ex (JObj kvs) n = excavate ex (JObj [(''value'', v)]) n"
    by (simp add: excavate_def)
next
  assume "0 \<le> maxDepth ex"
  then have "\<not> maxDepth ex < 0" by simp
  then show "excavate ex (JObj [(''value'', JNum 5)]) n =
      (\<lparr>virtualObjects =
          [(emptyVO (voId (n + 1)) ''#'')\<lparr>vo_category := Some ''value'',
              vo_type := Some ''number'', vo_valuePreview := Some (JNum 5)\<rparr>],
        relationships = [], domSheets = Some []\<rparr>, n + 1)"
    by (simp add: excavate_def excavateWalk_def genId_vo walkValue.simps)
qed

theorem excavate_unwraps_value_witness:
  "map_of [(''value'', JNum 5), (''other'', JStr ''x'')] ''value'' = Some (JNum 5) \<and>
   (0 :: int) \<le> maxDepth \<lparr>maxDepth = 6, maxArraySample = 8, includeDom = False\<rparr> \<and>
   excavate \<lparr>maxDepth = 6, maxArraySample = 8, includeDom = False\<rparr>
     (JObj [(''value'', JNum 5), (''other'', JStr ''x'')]) 0 =
     (\<lparr>virtualObjects =
         [\<lparr>vo_id = ''vo_1'', vo_category = Some ''value'', vo_path = ''#'',
           vo_type = Some ''number'', vo_fields = None, vo_elementTypes = None,
           vo_valuePreview = Some (JNum 5), vo_signature = None, vo_selector = None,
           vo_ctor = None\<rparr>],
       relationships = [], domSheets = Some []\<rparr>, 1)"
proof -
  have h: "map_of [(''value'', JNum 5), (''other'', JStr ''x'')] ''value'' = Some (JNum 5)"
    by simp
  have v1: "voId (Suc 0) = ''vo_1''"
    by (simp add: voId_def numToString_small digitChar_def)
  show ?thesis
    using excavate_unwraps_value [OF h, of "\<lparr>maxDepth = 6, maxArraySample = 8, includeDom = False\<rparr>" 0]
    by (simp add: emptyVO_def v1)
qed

section \<open>Properties of the session manager\<close>

subsection \<open>The session after addSnapshot\<close>

lemma foldl_metrics:
  "foldl (\<lambda>(totalVO, totalRel, sheets) snap.
            (totalVO + m_virtualObjects (snap_metrics snap),
             totalRel + m_relationships (snap_metrics snap),
             sheets + m_domSheets (snap_metrics snap))) (a, b, c) snaps =
     (a + sum_list (map (\<lambda>snap. m_virtualObjects (snap_metrics snap)) snaps),
      b + sum_list (map (\<lambda>snap. m_relationships (snap_metrics snap)) snaps),
      c + sum_list (map (\<lambda>snap. m_domSheets (snap_metrics snap)) snaps))"
  by (induction snaps arbitrary: a b c) simp_all

lemma updateSummary_eq:
  "updateSummary s =
     s\<lparr>sess_summary := (sess_summary s)\<lparr>
        totalVirtualObjects := sum_list (map (\<lambda>snap. m_virtualObjects (snap_metrics snap)) (sess_snapshots s)),
        totalRelationships := sum_list (map (\<lambda>snap. m_relationships (snap_metrics snap)) (sess_snapshots s)),
        summaryDomSheets := sum_list (map (\<lambda>snap. m_domSheets (snap_metrics snap)) (sess_snapshots s))\<rparr>\<rparr>"
  by (simp add: updateSummary_def foldl_metrics)

lemma detectDrift_snapshots [simp]: "sess_snapshots (detectDrift s) = sess_snapshots s"
  by (simp add: detectDrift_def Let_def)

lemma detectDrift_totals [simp]:
  "totalVirtualObjects (sess_summary (detectDrift s)) = totalVirtualObjects (sess_summary s)"
  "totalRelationships (sess_summary (detectDrift s)) = totalRelationships (sess_summary s)"
  "summaryDomSheets (sess_summary (detectDrift s)) = summaryDomSheets (sess_summary s)"
  by (simp_all add: detectDrift_def Let_def)

lemma updateSummary_snapshots [simp]: "sess_snapshots (updateSummary s) = sess_snapshots s"
  by (simp add: updateSummary_eq)

lemma updateSummary_drift [simp]:
  "driftEvents (sess_summary (updateSummary s)) = driftEvents (sess_summary s)"
  by (simp add: updateSummary_eq)

lemma addSnapshot_unknown:
  "sessions mgr sid = None \<Longrightarrow> addSnapshot mgr sid r label now = (Inl (UnknownSession sid), mgr)"
  by (simp add: addSnapshot_def)

lemma addSnapshot_session:
  assumes "sessions mgr sid = Some s"
  shows "sessions (snd (addSnapshot mgr sid r label now)) sid =
     Some (detectDrift (updateSummary
       (s\<lparr>sess_snapshots := keptLog (maxSnapshots mgr) (sess_snapshots s) (newSnapshot sid s r label now)\<rparr>)))"
  using assms
  by (simp add: addSnapshot_def Let_def newSnapshot_def keptLog_def split: option.splits sum.splits)

lemma addSnapshot_config:
  "maxSnapshots (snd (addSnapshot mgr sid r label now)) = maxSnapshots mgr"
  by (simp add: addSnapshot_def Let_def split: option.splits sum.splits)

lemma addSnapshot_outcome:
  assumes "sessions mgr sid = Some s" "fst (addSnapshot mgr sid r label now) = Inr snap"
  shows "snap = newSnapshot sid s r label now"
  using assms
  by (auto simp: addSnapshot_def Let_def newSnapshot_def split: option.splits sum.splits)

lemma addSnapshot_no_persistence:
  assumes "sessions mgr sid = Some s" "sm_persistence mgr = None"
  shows "fst (addSnapshot mgr sid r label now) = Inr (newSnapshot sid s r label now)"
    and "sm_persistence (snd (addSnapshot mgr sid r label now)) = None"
  using assms
  by (simp_all add: addSnapshot_def Let_def newSnapshot_def)

subsection \<open>The summary is the sum over the window\<close>

text \<open>
  C3. After a call of \<^verbatim>\<open>addSnapshot\<close> for a known session, the three totals of the
  session's summary are the sums of the metrics of the snapshots that are in the log after
  the call; an evicted snapshot no longer counts.
\<close>

theorem summary_is_window_sum:
  assumes "sessions (snd (addSnapshot mgr sid r label now)) sid = Some s'"
  shows "totalVirtualObjects (sess_summary s') =
           sum_list (map (\<lambda>snap. m_virtualObjects (snap_metrics snap)) (sess_snapshots s')) \<and>
         totalRelationships (sess_summary s') =
           sum_list (map (\<lambda>snap. m_relationships (snap_metrics snap)) (sess_snapshots s')) \<and>
         summaryDomSheets (sess_summary s') =
           sum_list (map (\<lambda>snap. m_domSheets (snap_metrics snap)) (sess_snapshots s'))"
proof (cases "sessions mgr sid")
  case None
  with assms show ?thesis by (simp add: addSnapshot_unknown)
next
  case (Some s)
  from addSnapshot_session [OF Some, of r label now] assms
  have s': "s' = detectDrift (updateSummary
       (s\<lparr>sess_snapshots := keptLog (maxSnapshots mgr) (sess_snapshots s) (newSnapshot sid s r label now)\<rparr>))"
    by simp
  show ?thesis
    unfolding s' by (simp add: updateSummary_eq)
qed

theorem summary_is_window_sum_witness:
  "\<exists>s'. sessions (snd (addSnapshot
            (snd (addSnapshot (snd (startSession (sampleManager 1 None) ''s'' ''{}'' ''t0''))
               ''s'' (sampleResult ''a'' 2 1) ''first'' ''t1''))
            ''s'' (sampleResult ''b'' 3 0) ''second'' ''t2'')) ''s'' = Some s' \<and>
         map snap_id (sess_snapshots s') = [''s:1''] \<and>
         totalVirtualObjects (sess_summary s') = 3 \<and>
         totalRelationships (sess_summary s') = 0"
proof -
  define mgr where "mgr = snd (addSnapshot
      (snd (addSnapshot (snd (startSession (sampleManager 1 None) ''s'' ''{}'' ''t0''))
         ''s'' (sampleResult ''a'' 2 1) ''first'' ''t1''))
      ''s'' (sampleResult ''b'' 3 0) ''second'' ''t2'')"
  define s' where "s' = the (sessions mgr ''s'')"
  have s': "sessions mgr ''s'' = Some s'"
    and ids: "map snap_id (sess_snapshots s') = [''s:1'']"
    and vos: "map (\<lambda>snap. m_virtualObjects (snap_metrics snap)) (sess_snapshots s') = [3]"
    and rels: "map (\<lambda>snap. m_relationships (snap_metrics snap)) (sess_snapshots s') = [0]"
    unfolding s'_def mgr_def by code_simp+
  from summary_is_window_sum [OF s' [unfolded mgr_def]] vos rels
  have "totalVirtualObjects (sess_summary s') = 3" "totalRelationships (sess_summary s') = 0"
    by simp_all
  with s' ids show ?thesis
    unfolding mgr_def by (intro exI [of _ s']) simp
qed

subsection \<open>Drift detection\<close>

lemma keptLog_last_two:
  assumes "old \<noteq> []" "2 \<le> length (keptLog cap old snap)"
  shows "keptLog cap old snap ! (length (keptLog cap old snap) - 1) = snap"
    and "keptLog cap old snap ! (length (keptLog cap old snap) - 2) = last old"
proof -
  let ?p = "old @ [snap]"
  have p1: "?p ! (length ?p - 1) = snap" by simp
  have p2: "?p ! (length ?p - 2) = last old"
    using assms(1) by (simp add: nth_append last_conv_nth)
  show "keptLog cap old snap ! (length (keptLog cap old snap) - 1) = snap"
  proof (cases "int (length ?p) > cap")
    case True
    then have k: "keptLog cap old snap = tl ?p" by (simp add: keptLog_def)
    have "tl ?p ! (length (tl ?p) - 1) = ?p ! (length ?p - 1)"
      using assms(1) by (cases old) (simp_all add: nth_append)
    with p1 show ?thesis by (simp add: k)
  next
    case False
    then have "keptLog cap old snap = ?p" by (simp add: keptLog_def)
    with p1 show ?thesis by simp
  qed
  show "keptLog cap old snap ! (length (keptLog cap old snap) - 2) = last old"
  proof (cases "int (length ?p) > cap")
    case True
    then have k: "keptLog cap old snap = tl ?p" by (simp add: keptLog_def)
    have len: "3 \<le> length ?p" using assms(2) by (simp add: k)
    have "tl ?p ! (length (tl ?p) - 2) = ?p ! Suc (length (tl ?p) - 2)"
      using len by (intro nth_tl) simp
    also have "Suc (length (tl ?p) - 2) = length ?p - 2"
      using len by simp
    finally show ?thesis using p2 by (simp add: k)
  next
    case False
    then have "keptLog cap old snap = ?p" by (simp add: keptLog_def)
    with p2 show ?thesis by simp
  qed
qed

lemma keptLog_short: "length (keptLog cap [] snap) < 2"
  by (simp add: keptLog_def)

text \<open>
  C4. A call of \<^verbatim>\<open>addSnapshot\<close> adds one to \<open>driftEvents\<close> exactly when the log after the
  eviction holds at least two snapshots and the counts of virtual objects or of
  relationships of its last two differ; with fewer than two snapshots \<open>driftEvents\<close> stays.
  A result with the same two counts as the previous snapshot leaves \<open>driftEvents\<close> as it
  was, whatever the result holds.
\<close>

theorem drift_counts_last_two:
  assumes "sessions mgr sid = Some s"
    and "sessions (snd (addSnapshot mgr sid r label now)) sid = Some s'"
  shows "(let snaps = sess_snapshots s';
              latest = snaps ! (length snaps - 1);
              prev = snaps ! (length snaps - 2)
          in driftEvents (sess_summary s') =
               driftEvents (sess_summary s) +
               (if 2 \<le> length snaps \<and>
                   0 < \<bar>int (m_virtualObjects (snap_metrics latest)) -
                        int (m_virtualObjects (snap_metrics prev))\<bar> +
                       \<bar>int (m_relationships (snap_metrics latest)) -
                        int (m_relationships (snap_metrics prev))\<bar>
                then 1 else 0)) \<and>
         (length (sess_snapshots s') < 2 \<longrightarrow>
            driftEvents (sess_summary s') = driftEvents (sess_summary s)) \<and>
         (sess_snapshots s \<noteq> [] \<and>
          length (virtualObjects r) = m_virtualObjects (snap_metrics (last (sess_snapshots s))) \<and>
          length (relationships r) = m_relationships (snap_metrics (last (sess_snapshots s))) \<longrightarrow>
            driftEvents (sess_summary s') = driftEvents (sess_summary s))"
proof -
  define snap where "snap = newSnapshot sid s r label now"
  define kept where "kept = keptLog (maxSnapshots mgr) (sess_snapshots s) snap"
  define s1 where "s1 = updateSummary (s\<lparr>sess_snapshots := kept\<rparr>)"
  have s': "s' = detectDrift s1"
    using addSnapshot_session [OF assms(1), of r label now] assms(2)
    by (simp add: s1_def kept_def snap_def)
  have snaps: "sess_snapshots s' = kept" "sess_snapshots s1 = kept"
    by (simp_all add: s' s1_def)
  have d1: "driftEvents (sess_summary s1) = driftEvents (sess_summary s)"
    by (simp add: s1_def)
  define moved where "moved \<longleftrightarrow>
      0 < \<bar>int (m_virtualObjects (snap_metrics (kept ! (length kept - 1)))) -
           int (m_virtualObjects (snap_metrics (kept ! (length kept - 2))))\<bar> +
          \<bar>int (m_relationships (snap_metrics (kept ! (length kept - 1)))) -
           int (m_relationships (snap_metrics (kept ! (length kept - 2))))\<bar>"
  have drift: "detectDrift s1 =
      (if 2 \<le> length kept \<and> moved
       then s1\<lparr>sess_summary := (sess_summary s1)\<lparr>driftEvents := driftEvents (sess_summary s1) + 1\<rparr>\<rparr>
       else s1)"
    by (simp add: detectDrift_def Let_def snaps(2) moved_def not_less)
  have main: "driftEvents (sess_summary s') =
      driftEvents (sess_summary s) + (if 2 \<le> length kept \<and> moved then 1 else 0)"
    unfolding s' drift using d1 by (cases "2 \<le> length kept \<and> moved") simp_all
  have few: "driftEvents (sess_summary s') = driftEvents (sess_summary s)" if "length kept < 2"
    using main that by simp
  have same: "driftEvents (sess_summary s') = driftEvents (sess_summary s)"
    if ne: "sess_snapshots s \<noteq> []"
      and vo: "length (virtualObjects r) = m_virtualObjects (snap_metrics (last (sess_snapshots s)))"
      and rel: "length (relationships r) = m_relationships (snap_metrics (last (sess_snapshots s)))"
  proof (cases "2 \<le> length kept")
    case True
    have "kept ! (length kept - 1) = snap" "kept ! (length kept - 2) = last (sess_snapshots s)"
      using keptLog_last_two [OF ne, of "maxSnapshots mgr" snap] True by (simp_all add: kept_def)
    then have "\<not> moved"
      using vo rel by (simp add: moved_def snap_def newSnapshot_def)
    then show ?thesis
      using main by simp
  next
    case False
    then show ?thesis using few by simp
  qed
  show ?thesis
    unfolding Let_def snaps(1) moved_def [symmetric]
    using main few same by blast
qed

theorem drift_counts_last_two_witness:
  "\<exists>s s'. sessions (snd (addSnapshot (snd (startSession (sampleManager 5 None) ''s'' ''{}'' ''t0''))
               ''s'' (sampleResult ''a'' 2 1) ''first'' ''t1'')) ''s'' = Some s \<and>
           sessions (snd (addSnapshot
             (snd (addSnapshot (snd (startSession (sampleManager 5 None) ''s'' ''{}'' ''t0''))
               ''s'' (sampleResult ''a'' 2 1) ''first'' ''t1''))
             ''s'' (sampleResult ''b'' 2 1) ''second'' ''t2'')) ''s'' = Some s' \<and>
           sess_snapshots s \<noteq> [] \<and>
           snap_result (last (sess_snapshots s)) \<noteq> sampleResult ''b'' 2 1 \<and>
           length (virtualObjects (sampleResult ''b'' 2 1)) =
             m_virtualObjects (snap_metrics (last (sess_snapshots s))) \<and>
           length (relationships (sampleResult ''b'' 2 1)) =
             m_relationships (snap_metrics (last (sess_snapshots s))) \<and>
           length (sess_snapshots s') = 2 \<and>
           driftEvents (sess_summary s') = driftEvents (sess_summary s)"
proof -
  define mgr where "mgr = snd (addSnapshot (snd (startSession (sampleManager 5 None) ''s'' ''{}'' ''t0''))
      ''s'' (sampleResult ''a'' 2 1) ''first'' ''t1'')"
  define mgr' where "mgr' = snd (addSnapshot mgr ''s'' (sampleResult ''b'' 2 1) ''second'' ''t2'')"
  define s where "s = the (sessions mgr ''s'')"
  define s' where "s' = the (sessions mgr' ''s'')"
  have s: "sessions mgr ''s'' = Some s"
    and ne: "sess_snapshots s \<noteq> []"
    and other: "snap_result (last (sess_snapshots s)) \<noteq> sampleResult ''b'' 2 1"
    and vo: "length (virtualObjects (sampleResult ''b'' 2 1)) =
        m_virtualObjects (snap_metrics (last (sess_snapshots s)))"
    and rel: "length (relationships (sampleResult ''b'' 2 1)) =
        m_relationships (snap_metrics (last (sess_snapshots s)))"
    unfolding s_def mgr_def by code_simp+
  have s': "sessions mgr' ''s'' = Some s'" and two: "length (sess_snapshots s') = 2"
    unfolding s'_def mgr'_def mgr_def by code_simp+
  from drift_counts_last_two [OF s s' [unfolded mgr'_def]] ne vo rel
  have "driftEvents (sess_summary s') = driftEvents (sess_summary s)"
    by blast
  with s s' ne other vo rel two show ?thesis
    unfolding mgr'_def mgr_def by (intro exI [of _ s] exI [of _ s']) simp
qed

subsection \<open>Snapshot ids\<close>

lemma keptLog_full:
  "int (length old) = cap \<Longrightarrow> int (length (keptLog cap old snap)) = cap"
  by (simp add: keptLog_def)

lemma addSnapshot_full:
  assumes "sessions mgr sid = Some s" "int (length (sess_snapshots s)) = maxSnapshots mgr"
  shows "\<exists>s'. sessions (snd (addSnapshot mgr sid r label now)) sid = Some s' \<and>
          int (length (sess_snapshots s')) = maxSnapshots (snd (addSnapshot mgr sid r label now))"
  using addSnapshot_session [OF assms(1), of r label now] keptLog_full [OF assms(2)]
  by (simp add: addSnapshot_config)

lemma addSnapshots_full_ids:
  assumes "sessions mgr sid = Some s" "int (length (sess_snapshots s)) = maxSnapshots mgr"
    and "out \<in> set (fst (addSnapshots mgr sid cs))" "out = Inr snap"
  shows "snap_id snap = sid @ '':'' @ numToString 10 (nat (maxSnapshots mgr))"
  using assms
proof (induction cs arbitrary: mgr s)
  case Nil
  then show ?case by simp
next
  case (Cons c cs)
  obtain r label now where c: "c = (r, label, now)" by (cases c)
  let ?step = "addSnapshot mgr sid r label now"
  obtain s' where s': "sessions (snd ?step) sid = Some s'"
      "int (length (sess_snapshots s')) = maxSnapshots (snd ?step)"
    using addSnapshot_full [OF Cons.prems(1,2), of r label now] by blast
  have cfg: "maxSnapshots (snd ?step) = maxSnapshots mgr"
    by (rule addSnapshot_config)
  from Cons.prems(3) have "out = fst ?step \<or> out \<in> set (fst (addSnapshots (snd ?step) sid cs))"
    by (simp add: c split_beta Let_def)
  then show ?case
  proof
    assume "out = fst ?step"
    with Cons.prems(4) have "fst ?step = Inr snap" by simp
    have "length (sess_snapshots s) = nat (maxSnapshots mgr)"
      using Cons.prems(2) by linarith
    with addSnapshot_outcome [OF Cons.prems(1) \<open>fst ?step = Inr snap\<close>]
    show ?thesis by (simp add: newSnapshot_def)
  next
    assume "out \<in> set (fst (addSnapshots (snd ?step) sid cs))"
    from Cons.IH [OF s' this Cons.prems(4)] cfg show ?thesis by simp
  qed
qed

text \<open>
  C9. A successful \<^verbatim>\<open>addSnapshot\<close> returns a snapshot whose id is the session id, a colon
  and the decimal length of the log before the push. Once the log holds \<open>maxSnapshots\<close>
  entries, every later successful call for the session returns the same id, the session
  id followed by \<open>maxSnapshots\<close>.
\<close>

theorem snapshot_id_repeats:
  assumes "sessions mgr sid = Some s"
  shows "(\<forall>snap. fst (addSnapshot mgr sid r label now) = Inr snap \<longrightarrow>
            snap_id snap = sid @ '':'' @ numToString 10 (length (sess_snapshots s))) \<and>
         (int (length (sess_snapshots s)) = maxSnapshots mgr \<longrightarrow>
            (\<forall>out \<in> set (fst (addSnapshots mgr sid cs)). \<forall>snap. out = Inr snap \<longrightarrow>
               snap_id snap = sid @ '':'' @ numToString 10 (nat (maxSnapshots mgr))))"
proof (intro conjI allI impI ballI)
  fix snap
  assume "fst (addSnapshot mgr sid r label now) = Inr snap"
  from addSnapshot_outcome [OF assms this]
  show "snap_id snap = sid @ '':'' @ numToString 10 (length (sess_snapshots s))"
    by (simp add: newSnapshot_def)
next
  fix out snap
  assume "int (length (sess_snapshots s)) = maxSnapshots mgr"
    and "out \<in> set (fst (addSnapshots mgr sid cs))" and "out = Inr snap"
  then show "snap_id snap = sid @ '':'' @ numToString 10 (nat (maxSnapshots mgr))"
    using addSnapshots_full_ids [OF assms] by blast
qed

theorem snapshot_id_repeats_witness:
  "\<exists>s. sessions (snd (addSnapshots (snd (startSession (sampleManager 2 None) ''s'' ''{}'' ''t0'')) ''s''
            [(sampleResult ''a'' 2 1, ''first'', ''t1''), (sampleResult ''b'' 2 1, ''second'', ''t2'')]))
          ''s'' = Some s \<and>
        int (length (sess_snapshots s)) = 2 \<and>
        map (case_sum (\<lambda>e. ''error'') snap_id)
          (fst (addSnapshots
             (snd (addSnapshots (snd (startSession (sampleManager 2 None) ''s'' ''{}'' ''t0'')) ''s''
                [(sampleResult ''a'' 2 1, ''first'', ''t1''), (sampleResult ''b'' 2 1, ''second'', ''t2'')]))
             ''s''
             [(sampleResult ''c'' 1 0, ''third'', ''t3''), (sampleResult ''d'' 1 0, ''fourth'', ''t4'')])) =
          [''s:2'', ''s:2'']"
proof -
  define mgr where "mgr = snd (addSnapshots (snd (startSession (sampleManager 2 None) ''s'' ''{}'' ''t0'')) ''s''
      [(sampleResult ''a'' 2 1, ''first'', ''t1''), (sampleResult ''b'' 2 1, ''second'', ''t2'')])"
  define cs where "cs = [(sampleResult ''c'' 1 0, ''third'', ''t3''),
      (sampleResult ''d'' 1 0, ''fourth'', ''t4'')]"
  define s where "s = the (sessions mgr ''s'')"
  define a where "a = projr (fst (addSnapshots mgr ''s'' cs) ! 0)"
  define b where "b = projr (fst (addSnapshots mgr ''s'' cs) ! 1)"
  have s: "sessions mgr ''s'' = Some s"
    and full: "int (length (sess_snapshots s)) = maxSnapshots mgr"
    and cap: "maxSnapshots mgr = 2"
    unfolding s_def mgr_def by code_simp+
  have outs: "fst (addSnapshots mgr ''s'' cs) = [Inr a, Inr b]"
    unfolding a_def b_def cs_def mgr_def by code_simp
  have two: "numToString 10 2 = ''2''"
    by (simp add: numToString_small digitChar_def)
  have "snap_id a = ''s'' @ '':'' @ numToString 10 (nat (maxSnapshots mgr))"
    using snapshot_id_repeats [OF s, THEN conjunct2, rule_format, OF full, of "Inr a" cs a]
    by (simp add: outs)
  moreover have "snap_id b = ''s'' @ '':'' @ numToString 10 (nat (maxSnapshots mgr))"
    using snapshot_id_repeats [OF s, THEN conjunct2, rule_format, OF full, of "Inr b" cs b]
    by (simp add: outs)
  ultimately have "map (case_sum (\<lambda>e. ''error'') snap_id) (fst (addSnapshots mgr ''s'' cs)) =
      [''s:2'', ''s:2'']"
    by (simp add: outs cap two)
  with s full cap show ?thesis
    unfolding mgr_def cs_def by (intro exI [of _ s]) simp
qed

subsection \<open>The log as a first-in, first-out window\<close>

lemma keptLog_window:
  assumes "length old \<le> c"
  shows "keptLog (int c) old snap = drop (length (old @ [snap]) - c) (old @ [snap])"
proof (cases "length old = c")
  case True
  have k: "length (old @ [snap]) - c = Suc 0" using True by simp
  have "keptLog (int c) old snap = tl (old @ [snap])"
    using True by (simp add: keptLog_def)
  also have "\<dots> = drop (Suc 0) (old @ [snap])"
    by (metis drop_Suc drop0)
  finally show ?thesis unfolding k .
next
  case False
  with assms have "length old < c" by simp
  then show ?thesis by (simp add: keptLog_def)
qed

lemma window_step:
  "drop (length (drop (length zs - c) zs @ ys) - c) (drop (length zs - c) zs @ ys) =
   drop (length (zs @ ys) - c) (zs @ ys)"
proof -
  define k where "k = length zs - c"
  have app: "drop k zs @ ys = drop k (zs @ ys)"
    by (simp add: k_def)
  have sum: "length (drop k (zs @ ys)) - c + k = length (zs @ ys) - c"
    by (simp add: k_def)
  have "drop (length (drop k (zs @ ys)) - c) (drop k (zs @ ys)) =
      drop (length (drop k (zs @ ys)) - c + k) (zs @ ys)"
    by (simp only: drop_drop)
  then show ?thesis
    unfolding k_def [symmetric] app sum .
qed

lemma addSnapshots_window:
  assumes "sessions mgr sid = Some s" "sm_persistence mgr = None"
    and "maxSnapshots mgr = int c" "length (sess_snapshots s) \<le> c"
  shows "\<exists>created s'.
           fst (addSnapshots mgr sid cs) = map Inr created \<and>
           map snap_result created = map fst cs \<and>
           map snap_label created = map (fst \<circ> snd) cs \<and>
           sessions (snd (addSnapshots mgr sid cs)) sid = Some s' \<and>
           sess_snapshots s' =
             drop (length (sess_snapshots s @ created) - c) (sess_snapshots s @ created)"
  using assms
proof (induction cs arbitrary: mgr s)
  case Nil
  then show ?case by (intro exI [of _ "[]"] exI [of _ s]) simp
next
  case (Cons call cs)
  obtain r label now where call: "call = (r, label, now)" by (cases call)
  define new where "new = newSnapshot sid s r label now"
  define mgr1 where "mgr1 = snd (addSnapshot mgr sid r label now)"
  define s1 where "s1 = detectDrift (updateSummary
      (s\<lparr>sess_snapshots := keptLog (maxSnapshots mgr) (sess_snapshots s) new\<rparr>))"
  have out: "fst (addSnapshot mgr sid r label now) = Inr new"
    and store: "sm_persistence mgr1 = None"
    using addSnapshot_no_persistence [OF Cons.prems(1,2), of r label now]
    by (simp_all add: new_def mgr1_def)
  have sess: "sessions mgr1 sid = Some s1"
    using addSnapshot_session [OF Cons.prems(1), of r label now]
    by (simp add: mgr1_def s1_def new_def)
  have cap: "maxSnapshots mgr1 = int c"
    using Cons.prems(3) by (simp add: mgr1_def addSnapshot_config)
  have log1: "sess_snapshots s1 =
      drop (length (sess_snapshots s @ [new]) - c) (sess_snapshots s @ [new])"
    using keptLog_window [OF Cons.prems(4), of new] by (simp add: s1_def Cons.prems(3))
  have len1: "length (sess_snapshots s1) \<le> c"
    unfolding log1 using Cons.prems(4) by simp
  from Cons.IH [OF sess store cap len1] obtain created s' where
    rest: "fst (addSnapshots mgr1 sid cs) = map Inr created \<and>
      map snap_result created = map fst cs \<and>
      map snap_label created = map (fst \<circ> snd) cs \<and>
      sessions (snd (addSnapshots mgr1 sid cs)) sid = Some s' \<and>
      sess_snapshots s' =
        drop (length (sess_snapshots s1 @ created) - c) (sess_snapshots s1 @ created)"
    by blast
  have unfold: "addSnapshots mgr sid (call # cs) =
      (Inr new # fst (addSnapshots mgr1 sid cs), snd (addSnapshots mgr1 sid cs))"
    using out by (simp add: call mgr1_def split_beta)
  have log: "sess_snapshots s' =
      drop (length (sess_snapshots s @ new # created) - c) (sess_snapshots s @ new # created)"
  proof -
    have "sess_snapshots s' =
        drop (length (sess_snapshots s1 @ created) - c) (sess_snapshots s1 @ created)"
      using rest by blast
    also have "\<dots> = drop (length ((sess_snapshots s @ [new]) @ created) - c)
        ((sess_snapshots s @ [new]) @ created)"
      unfolding log1 by (rule window_step)
    finally show ?thesis by simp
  qed
  have meta: "snap_result new = r" "snap_label new = label"
    by (simp_all add: new_def newSnapshot_def)
  have outs: "fst (addSnapshots mgr sid (call # cs)) = map Inr (new # created)"
    using rest by (simp add: unfold)
  have results: "map snap_result (new # created) = map fst (call # cs)"
    using rest meta by (simp add: call)
  have labels: "map snap_label (new # created) = map (fst \<circ> snd) (call # cs)"
    using rest meta by (simp add: call)
  have final: "sessions (snd (addSnapshots mgr sid (call # cs))) sid = Some s'"
    using rest by (simp add: unfold)
  show ?case
    using outs results labels final log
    by (intro exI [of _ "new # created"] exI [of _ s'] conjI)
qed

text \<open>
  For a manager without a store and a session whose log holds at most
  \<open>maxSnapshots\<close> snapshots, any sequence of \<^verbatim>\<open>addSnapshot\<close> calls succeeds, and afterwards
  the log is the last \<open>maxSnapshots\<close> entries of the old log followed by the snapshots
  the calls created, in that order; its length is at most \<open>maxSnapshots\<close>.
\<close>

theorem log_is_fifo_window:
  assumes "sessions mgr sid = Some s" and "sm_persistence mgr = None"
    and "0 \<le> maxSnapshots mgr" and "int (length (sess_snapshots s)) \<le> maxSnapshots mgr"
  shows "\<exists>created s'.
           fst (addSnapshots mgr sid cs) = map Inr created \<and>
           map snap_result created = map fst cs \<and>
           map snap_label created = map (fst \<circ> snd) cs \<and>
           sessions (snd (addSnapshots mgr sid cs)) sid = Some s' \<and>
           sess_snapshots s' =
             drop (length (sess_snapshots s @ created) - nat (maxSnapshots mgr))
               (sess_snapshots s @ created) \<and>
           int (length (sess_snapshots s')) \<le> maxSnapshots mgr"
proof -
  define c where "c = nat (maxSnapshots mgr)"
  have cap: "maxSnapshots mgr = int c" and len: "length (sess_snapshots s) \<le> c"
    using assms(3,4) by (simp_all add: c_def)
  from addSnapshots_window [OF assms(1,2) cap len, of cs] obtain created s' where
    w: "fst (addSnapshots mgr sid cs) = map Inr created \<and>
      map snap_result created = map fst cs \<and>
      map snap_label created = map (fst \<circ> snd) cs \<and>
      sessions (snd (addSnapshots mgr sid cs)) sid = Some s' \<and>
      sess_snapshots s' =
        drop (length (sess_snapshots s @ created) - c) (sess_snapshots s @ created)"
    by blast
  then have "length (sess_snapshots s') \<le> c"
    by simp
  then have "int (length (sess_snapshots s')) \<le> maxSnapshots mgr"
    by (simp add: cap)
  with w show ?thesis
    unfolding c_def [symmetric] by (intro exI [of _ created] exI [of _ s']) blast
qed

theorem log_is_fifo_window_witness:
  "\<exists>s'. sessions (snd (addSnapshots (snd (startSession (sampleManager 2 None) ''s'' ''{}'' ''t0'')) ''s''
            [(sampleResult ''a'' 1 0, ''first'', ''t1''), (sampleResult ''b'' 2 0, ''second'', ''t2''),
             (sampleResult ''c'' 4 0, ''third'', ''t3'')])) ''s'' = Some s' \<and>
         map snap_label (sess_snapshots s') = [''second'', ''third''] \<and>
         totalVirtualObjects (sess_summary s') = 6 \<and>
         int (length (sess_snapshots s')) \<le> 2"
proof -
  define mgr where "mgr = snd (startSession (sampleManager 2 None) ''s'' ''{}'' ''t0'')"
  define cs where "cs = [(sampleResult ''a'' 1 0, ''first'', ''t1''),
      (sampleResult ''b'' 2 0, ''second'', ''t2''), (sampleResult ''c'' 4 0, ''third'', ''t3'')]"
  define s where "s = the (sessions mgr ''s'')"
  define s' where "s' = the (sessions (snd (addSnapshots mgr ''s'' cs)) ''s'')"
  have s: "sessions mgr ''s'' = Some s" and store: "sm_persistence mgr = None"
    and cap: "maxSnapshots mgr = 2" and len: "int (length (sess_snapshots s)) \<le> maxSnapshots mgr"
    unfolding s_def mgr_def by code_simp+
  have s': "sessions (snd (addSnapshots mgr ''s'' cs)) ''s'' = Some s'"
    and labels: "map snap_label (sess_snapshots s') = [''second'', ''third'']"
    and total: "totalVirtualObjects (sess_summary s') = 6"
    unfolding s'_def mgr_def cs_def by code_simp+
  have nonneg: "0 \<le> maxSnapshots mgr" by (simp add: cap)
  from log_is_fifo_window [OF s store nonneg len, of cs] s'
  have "int (length (sess_snapshots s')) \<le> 2"
    by (auto simp: cap)
  with s' labels total show ?thesis
    unfolding mgr_def cs_def by (intro exI [of _ s']) simp
qed

subsection \<open>A hydrated log is not cut to the capacity\<close>

text \<open>
  C2. A manager with \<open>maxSnapshots = 2\<close> and a store saves three snapshots of a session
  (the log in memory keeps two, the store all three). A new manager on the same store,
  again with \<open>maxSnapshots = 2\<close>, starts the session: \<^verbatim>\<open>hydrateSessionSnapshots\<close> loads
  the three stored snapshots, and a further successful \<^verbatim>\<open>addSnapshot\<close> evicts one and
  leaves three, more than \<open>maxSnapshots\<close>. (For a log that starts within the capacity,
  \<open>log_is_fifo_window\<close> above gives the bound and the first-in, first-out order.)
\<close>

theorem hydrated_log_exceeds_maxSnapshots:
  "(let store0 = \<lparr>sessionsTable = [], snapshotsTable = []\<rparr>;
        first = snd (addSnapshots
                  (snd (startSession (sampleManager 2 (Some store0)) ''s'' ''{}'' ''t0'')) ''s''
                  [(sampleResult ''a'' 1 0, ''first'', ''t1''),
                   (sampleResult ''b'' 1 0, ''second'', ''t2''),
                   (sampleResult ''c'' 1 0, ''third'', ''t3'')]);
        restarted = snd (startSession (sampleManager 2 (sm_persistence first)) ''s'' ''{}'' ''t4'');
        added = addSnapshot restarted ''s'' (sampleResult ''d'' 1 0) ''fourth'' ''t5''
    in map_option (map snap_id \<circ> sess_snapshots) (sessions first ''s'') = Some [''s:1'', ''s:2''] \<and>
       maxSnapshots restarted = 2 \<and>
       map_option (map snap_id \<circ> sess_snapshots) (sessions restarted ''s'') =
         Some [''s:0'', ''s:1'', ''s:2''] \<and>
       map_sum id snap_id (fst added) = Inr ''s:3'' \<and>
       maxSnapshots (snd added) = 2 \<and>
       map_option (map snap_id \<circ> sess_snapshots) (sessions (snd added) ''s'') =
         Some [''s:1'', ''s:2'', ''s:3''])"
  by code_simp

section \<open>Properties of the score engine\<close>

subsection \<open>Scores lie in the unit interval\<close>

lemma computeStability_bounds: "0 \<le> computeStability hist \<and> computeStability hist \<le> 1"
  by (simp add: computeStability_def Let_def)

lemma computeNovelty_bounds:
  "0 \<le> fst (computeNovelty clock hist tick) \<and> fst (computeNovelty clock hist tick) \<le> 1"
  by (simp add: computeNovelty_def Let_def dateNow_def)

lemma scoreVO_bounds:
  "0 \<le> stability (fst (scoreVO clock vo st)) \<and> stability (fst (scoreVO clock vo st)) \<le> 1 \<and>
   0 \<le> novelty (fst (scoreVO clock vo st)) \<and> novelty (fst (scoreVO clock vo st)) \<le> 1"
proof -
  obtain eng tick where st: "st = (eng, tick)" by (cases st)
  obtain hist eng1 where h: "getHistory (makeKey vo) eng = (hist, eng1)"
    by (cases "getHistory (makeKey vo) eng")
  obtain nov tick1 where n: "computeNovelty clock hist tick = (nov, tick1)"
    by (cases "computeNovelty clock hist tick")
  obtain eng2 tick2 where u: "updateHistory clock (makeKey vo) (eng1, tick1) = (eng2, tick2)"
    by (cases "updateHistory clock (makeKey vo) (eng1, tick1)")
  have "nov = fst (computeNovelty clock hist tick)" by (simp add: n)
  then have "0 \<le> nov \<and> nov \<le> 1" using computeNovelty_bounds by simp
  then show ?thesis
    using computeStability_bounds [of hist]
    by (simp add: scoreVO_def st Let_def h n u)
qed

lemma scoreLoop_bounds:
  assumes "\<forall>sc \<in> set acc. 0 \<le> stability sc \<and> stability sc \<le> 1 \<and> 0 \<le> novelty sc \<and> novelty sc \<le> 1"
  shows "\<forall>sc \<in> set (fst (scoreLoop clock vos acc st)).
           0 \<le> stability sc \<and> stability sc \<le> 1 \<and> 0 \<le> novelty sc \<and> novelty sc \<le> 1"
  using assms
proof (induction vos arbitrary: acc st)
  case Nil
  then show ?case by simp
next
  case (Cons vo rest)
  obtain sc st1 where step: "scoreVO clock vo st = (sc, st1)"
    by (cases "scoreVO clock vo st")
  have "0 \<le> stability sc \<and> stability sc \<le> 1 \<and> 0 \<le> novelty sc \<and> novelty sc \<le> 1"
    using scoreVO_bounds [of clock vo st] by (simp add: step)
  with Cons.prems have "\<forall>x \<in> set (acc @ [sc]).
      0 \<le> stability x \<and> stability x \<le> 1 \<and> 0 \<le> novelty x \<and> novelty x \<le> 1"
    by auto
  from Cons.IH [OF this] show ?case
    by (simp add: step)
qed

text \<open>
  C6. For every history (empty, one timestamp, or many, with any values) and every clock
  reading, \<^verbatim>\<open>_computeStability\<close> and \<^verbatim>\<open>_computeNovelty\<close> return a value in the closed
  interval from 0 to 1, and so do the stability and the novelty of every score
  \<^verbatim>\<open>scoreSnapshot\<close> returns, from any engine state. Numbers are taken as rationals.
\<close>

theorem scores_within_unit_interval:
  "0 \<le> computeStability hist \<and> computeStability hist \<le> 1 \<and>
   0 \<le> fst (computeNovelty clock hist tick) \<and> fst (computeNovelty clock hist tick) \<le> 1 \<and>
   (\<forall>sc \<in> set (fst (scoreSnapshot clock snap st)).
      0 \<le> stability sc \<and> stability sc \<le> 1 \<and> 0 \<le> novelty sc \<and> novelty sc \<le> 1)"
  using computeStability_bounds [of hist] computeNovelty_bounds [of clock hist tick]
    scoreLoop_bounds [of "[]" clock "virtualObjects (snap_result snap)" st]
  by (simp add: scoreSnapshot_def)

theorem scores_within_unit_interval_witness:
  "\<exists>sc. fst (scoreSnapshot (\<lambda>k. 20000) (sampleSnapshot [sampleVO])
            (sampleEngine\<lparr>objectHistory := [''dom-tag:div>a'' \<mapsto> [1000, 5000, 9000]]\<rparr>, 0)) = [sc] \<and>
        stability sc = 4000 / 86400000 \<and> novelty sc = 11000 / 604800000 \<and>
        0 \<le> stability sc \<and> stability sc \<le> 1 \<and> 0 \<le> novelty sc \<and> novelty sc \<le> 1"
proof -
  define eng where "eng = sampleEngine\<lparr>objectHistory := [''dom-tag:div>a'' \<mapsto> [1000, 5000, 9000]]\<rparr>"
  define sc where "sc = hd (fst (scoreSnapshot (\<lambda>k. 20000) (sampleSnapshot [sampleVO]) (eng, 0)))"
  have out: "fst (scoreSnapshot (\<lambda>k. 20000) (sampleSnapshot [sampleVO]) (eng, 0)) = [sc]"
    and stab: "stability sc = 4000 / 86400000"
    and nov: "novelty sc = 11000 / 604800000"
    unfolding sc_def eng_def by code_simp+
  have "sc \<in> set (fst (scoreSnapshot (\<lambda>k. 20000) (sampleSnapshot [sampleVO]) (eng, 0)))"
    by (simp add: out)
  with scores_within_unit_interval [of "[]" "\<lambda>k. 20000" 0 "sampleSnapshot [sampleVO]" "(eng, 0)"]
  have "0 \<le> stability sc \<and> stability sc \<le> 1 \<and> 0 \<le> novelty sc \<and> novelty sc \<le> 1"
    by blast
  with out stab nov show ?thesis
    unfolding eng_def by (intro exI [of _ sc]) simp
qed

subsection \<open>The history novelty is computed on\<close>

text \<open>
  C5 as stated fails. A new engine scores a snapshot with one virtual object: the history
  handed to \<^verbatim>\<open>_computeNovelty\<close> is empty and the novelty returned is 0.5.
\<close>

theorem novelty_on_empty_history_counterexample:
  "noveltyHistory sampleEngine sampleVO = [] \<and>
   map novelty (fst (scoreSnapshot (\<lambda>k. 0) (sampleSnapshot [sampleVO]) (sampleEngine, 0))) = [1 / 2]"
  by code_simp

lemma getHistory_window [simp]: "historyWindow (snd (getHistory key eng)) = historyWindow eng"
  by (simp add: getHistory_def split: option.splits)

lemma getHistory_lookup:
  "objectHistory (snd (getHistory key eng)) k =
     (if k = key \<and> objectHistory eng key = None then Some [] else objectHistory eng k)"
  by (simp add: getHistory_def split: option.splits)

lemma updateHistory_window [simp]:
  "historyWindow (fst (updateHistory clock key (eng, tick))) = historyWindow eng"
  by (simp add: updateHistory_def Let_def dateNow_def split_beta)

lemma updateHistory_other:
  "k \<noteq> key \<Longrightarrow> objectHistory (fst (updateHistory clock key (eng, tick))) k = objectHistory eng k"
  by (simp add: updateHistory_def Let_def dateNow_def split_beta getHistory_lookup)

lemma updateHistory_self:
  assumes "1 \<le> historyWindow eng"
  shows "\<exists>h. objectHistory (fst (updateHistory clock key (eng, tick))) key = Some h \<and> h \<noteq> []"
proof -
  have "tl (xs @ [x]) \<noteq> []" if "int (length (xs @ [x])) > historyWindow eng" for xs :: "int list" and x
    using that assms by (cases xs) auto
  then show ?thesis
    by (simp add: updateHistory_def Let_def dateNow_def split_beta)
qed

lemma scoreVO_engine:
  "fst (snd (scoreVO clock vo (eng, tick))) =
     fst (updateHistory clock (makeKey vo)
       (snd (getHistory (makeKey vo) eng), snd (computeNovelty clock (fst (getHistory (makeKey vo) eng)) tick)))"
  by (simp add: scoreVO_def Let_def split_beta)

lemma scoreVO_window [simp]: "historyWindow (fst (snd (scoreVO clock vo (eng, tick)))) = historyWindow eng"
  by (simp add: scoreVO_engine)

lemma scoreVO_seen_self:
  assumes "1 \<le> historyWindow eng"
  shows "seen (fst (snd (scoreVO clock vo (eng, tick)))) (makeKey vo)"
  unfolding seen_def scoreVO_engine
  by (rule updateHistory_self) (simp add: assms)

lemma scoreVO_seen_kept:
  assumes "1 \<le> historyWindow eng" "seen eng key"
  shows "seen (fst (snd (scoreVO clock vo (eng, tick)))) key"
proof (cases "key = makeKey vo")
  case True
  then show ?thesis using scoreVO_seen_self [OF assms(1)] by simp
next
  case False
  then show ?thesis
    using assms(2) by (auto simp: seen_def scoreVO_engine updateHistory_other getHistory_lookup)
qed

lemma scoreLoop_seen_kept:
  assumes "1 \<le> historyWindow eng" "seen eng key"
  shows "seen (fst (snd (scoreLoop clock vos acc (eng, tick)))) key"
  using assms
proof (induction vos arbitrary: acc eng tick)
  case Nil
  then show ?case by simp
next
  case (Cons vo rest)
  obtain sc eng1 tick1 where step: "scoreVO clock vo (eng, tick) = (sc, eng1, tick1)"
    by (cases "scoreVO clock vo (eng, tick)") auto
  have w: "1 \<le> historyWindow eng1"
    using scoreVO_window [of clock vo eng tick] Cons.prems(1) by (simp add: step)
  have s: "seen eng1 key"
    using scoreVO_seen_kept [OF Cons.prems, of clock vo tick] by (simp add: step)
  from Cons.IH [OF w s] show ?case by (simp add: step)
qed

lemma scoreLoop_seen:
  assumes "1 \<le> historyWindow eng" "vo' \<in> set vos"
  shows "seen (fst (snd (scoreLoop clock vos acc (eng, tick)))) (makeKey vo')"
  using assms
proof (induction vos arbitrary: acc eng tick)
  case Nil
  then show ?case by simp
next
  case (Cons vo rest)
  obtain sc eng1 tick1 where step: "scoreVO clock vo (eng, tick) = (sc, eng1, tick1)"
    by (cases "scoreVO clock vo (eng, tick)") auto
  have w: "1 \<le> historyWindow eng1"
    using scoreVO_window [of clock vo eng tick] Cons.prems(1) by (simp add: step)
  show ?case
  proof (cases "vo' = vo")
    case True
    have "seen eng1 (makeKey vo')"
      using scoreVO_seen_self [OF Cons.prems(1), of clock vo tick] True by (simp add: step)
    from scoreLoop_seen_kept [OF w this] show ?thesis by (simp add: step)
  next
    case False
    with Cons.prems(2) have "vo' \<in> set rest" by simp
    from Cons.IH [OF w this] show ?thesis by (simp add: step)
  qed
qed

lemma noveltyHistory_empty_iff:
  "noveltyHistory eng vo = [] \<longleftrightarrow>
     objectHistory eng (makeKey vo) = None \<or> objectHistory eng (makeKey vo) = Some []"
  by (auto simp: noveltyHistory_def getHistory_def split: option.splits)

lemma scoreVO_novelty:
  "novelty (fst (scoreVO clock vo (eng, tick))) = fst (computeNovelty clock (noveltyHistory eng vo) tick)"
  by (simp add: scoreVO_def Let_def split_beta noveltyHistory_def)

text \<open>
  C5, amended. The novelty of a scored virtual object is \<^verbatim>\<open>_computeNovelty\<close> of the
  history its identity key has before this observation is appended. That history is empty
  exactly when the key has no recorded observation (it is absent from the map, or its
  array is empty), and then the novelty is 0.5: the empty-history branch is taken at the
  first sighting of every key. With \<open>historyWindow\<close> at least 1, once a list of virtual
  objects holding one with a given key has been scored, the history of that key is
  non-empty for whatever is scored next.
\<close>

theorem novelty_history_first_sighting:
  "novelty (fst (scoreVO clock vo (eng, tick))) =
     fst (computeNovelty clock (noveltyHistory eng vo) tick) \<and>
   (noveltyHistory eng vo = [] \<longleftrightarrow>
      objectHistory eng (makeKey vo) = None \<or> objectHistory eng (makeKey vo) = Some []) \<and>
   (noveltyHistory eng vo = [] \<longrightarrow> novelty (fst (scoreVO clock vo (eng, tick))) = 1 / 2) \<and>
   (1 \<le> historyWindow eng \<and> vo' \<in> set vos \<and> makeKey vo' = makeKey vo \<longrightarrow>
      noveltyHistory (fst (snd (scoreLoop clock vos acc (eng, tick)))) vo \<noteq> [])"
proof (intro conjI impI)
  show "novelty (fst (scoreVO clock vo (eng, tick))) =
      fst (computeNovelty clock (noveltyHistory eng vo) tick)"
    by (rule scoreVO_novelty)
  show "noveltyHistory eng vo = [] \<longleftrightarrow>
      objectHistory eng (makeKey vo) = None \<or> objectHistory eng (makeKey vo) = Some []"
    by (rule noveltyHistory_empty_iff)
next
  assume "noveltyHistory eng vo = []"
  then show "novelty (fst (scoreVO clock vo (eng, tick))) = 1 / 2"
    by (simp add: scoreVO_novelty computeNovelty_def)
next
  assume a: "1 \<le> historyWindow eng \<and> vo' \<in> set vos \<and> makeKey vo' = makeKey vo"
  then have "seen (fst (snd (scoreLoop clock vos acc (eng, tick)))) (makeKey vo)"
    using scoreLoop_seen [of eng vo' vos clock acc tick] by simp
  then show "noveltyHistory (fst (snd (scoreLoop clock vos acc (eng, tick)))) vo \<noteq> []"
    by (auto simp: seen_def noveltyHistory_empty_iff)
qed

theorem novelty_history_first_sighting_witness:
  "noveltyHistory sampleEngine sampleVO = [] \<and>
   novelty (fst (scoreVO (\<lambda>k. 0) sampleVO (sampleEngine, 0))) = 1 / 2 \<and>
   1 \<le> historyWindow sampleEngine \<and> sampleVO \<in> set [sampleVO] \<and>
   noveltyHistory (fst (snd (scoreLoop (\<lambda>k. 0) [sampleVO] [] (sampleEngine, 0)))) sampleVO \<noteq> []"
proof -
  have e: "noveltyHistory sampleEngine sampleVO = []"
    by code_simp
  have w: "1 \<le> historyWindow sampleEngine"
    by (simp add: sampleEngine_def)
  note t = novelty_history_first_sighting [of "\<lambda>k. 0" sampleVO sampleEngine 0 sampleVO "[sampleVO]" "[]"]
  from t e have "novelty (fst (scoreVO (\<lambda>k. 0) sampleVO (sampleEngine, 0))) = 1 / 2"
    by blast
  moreover from t w
  have "noveltyHistory (fst (snd (scoreLoop (\<lambda>k. 0) [sampleVO] [] (sampleEngine, 0)))) sampleVO \<noteq> []"
    by simp
  ultimately show ?thesis
    using e w by simp
qed

section \<open>Properties of the multi-pass engine\<close>

lemma deepLoop_regions:
  "deepLoop deepFn input gs acc w = (Inr out, w') \<Longrightarrow> map fst out = map fst acc @ gs"
proof (induction gs arbitrary: acc w)
  case Nil
  then show ?case by simp
next
  case (Cons g rest)
  then show ?case
    by (auto split: prod.splits sum.splits)
qed

lemma deepLoop_trace:
  "deepLoop deepFn input gs acc w = (Inr out, w') \<Longrightarrow>
   \<exists>ws. length ws = Suc (length gs) \<and> ws ! 0 = w \<and> ws ! length gs = w' \<and>
        take (length acc) out = acc \<and>
        (\<forall>i < length gs. deepFn input (gs ! i) (ws ! i) = (Inr (snd (out ! (length acc + i))), ws ! Suc i))"
proof (induction gs arbitrary: acc w)
  case Nil
  then show ?case by (auto intro: exI [of _ "[w]"])
next
  case (Cons g rest)
  from Cons.prems obtain deep w1 where call: "deepFn input g w = (Inr deep, w1)"
    and rec: "deepLoop deepFn input rest (acc @ [(g, deep)]) w1 = (Inr out, w')"
    by (auto split: prod.splits sum.splits)
  from Cons.IH [OF rec] obtain ws where ws: "length ws = Suc (length rest)" "ws ! 0 = w1"
      "ws ! length rest = w'" "take (length (acc @ [(g, deep)])) out = acc @ [(g, deep)]"
      "\<forall>i < length rest. deepFn input (rest ! i) (ws ! i) =
          (Inr (snd (out ! (length (acc @ [(g, deep)]) + i))), ws ! Suc i)"
    by blast
  have lenout: "length acc < length out"
    using ws(4) by (metis length_append_singleton length_take lessI min_less_iff_conj)
  have at: "out ! length acc = (g, deep)"
  proof -
    have "out ! length acc = take (Suc (length acc)) out ! length acc" by simp
    also have "\<dots> = (acc @ [(g, deep)]) ! length acc" using ws(4) by simp
    finally show ?thesis by simp
  qed
  have pre: "take (length acc) out = acc"
  proof -
    have "take (length acc) out = take (length acc) (take (Suc (length acc)) out)"
      by (simp add: min_def)
    also have "\<dots> = take (length acc) (acc @ [(g, deep)])" using ws(4) by simp
    finally show ?thesis by simp
  qed
  have steps: "\<forall>i < length (g # rest). deepFn input ((g # rest) ! i) ((w # ws) ! i) =
      (Inr (snd (out ! (length acc + i))), (w # ws) ! Suc i)"
  proof (intro allI impI)
    fix i
    assume i: "i < length (g # rest)"
    show "deepFn input ((g # rest) ! i) ((w # ws) ! i) =
        (Inr (snd (out ! (length acc + i))), (w # ws) ! Suc i)"
    proof (cases i)
      case 0
      then show ?thesis using call ws(2) at by simp
    next
      case (Suc k)
      with i have "k < length rest" by simp
      with ws(5) Suc show ?thesis by simp
    qed
  qed
  show ?case
    using ws(1,3) pre steps by (intro exI [of _ "w # ws"]) simp
qed

lemma uncounted_apply: "uncounted f (c, w) = (fst (f w), c, snd (f w))"
  by (simp add: uncounted_def split_beta)

lemma counting_apply: "counting f (c, w) = (fst (f w), Suc c, snd (f w))"
  by (simp add: counting_def split_beta)

lemma deepLoop_uncounted:
  "fst (snd (deepLoop (\<lambda>i g. uncounted (deepFn i g)) input gs acc (c, w))) = c"
proof (induction gs arbitrary: acc w)
  case Nil
  show ?case by simp
next
  case (Cons g rest)
  show ?case
    by (cases "fst (deepFn input g w)") (simp_all add: uncounted_apply Cons.IH)
qed

lemma run_counts_shallow:
  "fst (snd (run m input (\<lambda>i. counting (shallowFn i)) (\<lambda>i g. uncounted (deepFn i g))
      (map_option (\<lambda>select r. uncounted (select r)) selector) (c, w))) = Suc c"
proof -
  have loop: "fst (snd (case deepLoop (\<lambda>i g. uncounted (deepFn i g)) input gs [] (Suc c, v) of
        (Inl e, w3) \<Rightarrow> (Inl e, w3)
      | (Inr deeps, w3) \<Rightarrow> (Inr \<lparr>shallowResult = sh, deepResults = deeps\<rparr>, w3))) = Suc c"
    for gs v sh
  proof -
    obtain d c' w3 where l: "deepLoop (\<lambda>i g. uncounted (deepFn i g)) input gs [] (Suc c, v) = (d, c', w3)"
      by (cases "deepLoop (\<lambda>i g. uncounted (deepFn i g)) input gs [] (Suc c, v)") auto
    have "c' = Suc c"
      using deepLoop_uncounted [of deepFn input gs "[]" "Suc c" v] by (simp add: l)
    then show ?thesis
      by (cases d) (simp_all add: l)
  qed
  show ?thesis
  proof (cases "fst (shallowFn input w)")
    case (Inl e)
    then show ?thesis by (simp add: run_def counting_apply)
  next
    case (Inr shallow)
    show ?thesis
    proof (cases selector)
      case None
      then show ?thesis
        using loop by (simp add: run_def counting_apply Inr)
    next
      case (Some select)
      show ?thesis
      proof (cases "fst (select shallow (snd (shallowFn input w)))")
        case (Inl e)
        then show ?thesis by (simp add: run_def counting_apply uncounted_apply Inr Some)
      next
        case regions: (Inr regions)
        then show ?thesis
          using loop by (simp add: run_def counting_apply uncounted_apply Inr Some)
      qed
    qed
  qed
qed

lemma run_selected:
  assumes "shallowFn input w = (Inr sh, w1)" "select sh w1 = (Inr regions, w2)"
    and "run m input shallowFn deepFn (Some select) w = (Inr res, w')"
  shows "shallowResult res = sh \<and>
         deepLoop deepFn input (slice0 regions m) [] w2 = (Inr (deepResults res), w')"
  using assms
  by (auto simp: run_def Let_def split: prod.splits sum.splits)

lemma run_capped:
  assumes m: "0 \<le> m"
    and sh: "shallowFn input w = (Inr sh, w1)" and sel: "select sh w1 = (Inr regions, w2)"
    and run: "run m input shallowFn deepFn (Some select) w = (Inr res, w')"
  shows "shallowResult res = sh \<and>
         length (deepResults res) = min (length regions) (nat m) \<and>
         map fst (deepResults res) = take (nat m) regions \<and>
         (\<exists>ws. length ws = Suc (length (deepResults res)) \<and> ws ! 0 = w2 \<and>
               ws ! length (deepResults res) = w' \<and>
               (\<forall>i < length (deepResults res).
                  deepFn input (regions ! i) (ws ! i) = (Inr (snd (deepResults res ! i)), ws ! Suc i)))"
proof -
  let ?sel = "take (nat m) regions"
  from run_selected [OF sh sel run] m
  have res: "shallowResult res = sh"
    and loop: "deepLoop deepFn input ?sel [] w2 = (Inr (deepResults res), w')"
    by (simp_all add: slice0_nonneg)
  have fsts: "map fst (deepResults res) = ?sel"
    using deepLoop_regions [OF loop] by simp
  have len: "length (deepResults res) = min (length regions) (nat m)"
    using arg_cong [OF fsts, of length] by simp
  have same: "length ?sel = length (deepResults res)"
    using len by simp
  from deepLoop_trace [OF loop]
  have "\<exists>ws. length ws = Suc (length ?sel) \<and> ws ! 0 = w2 \<and> ws ! length ?sel = w' \<and>
      (\<forall>i < length ?sel. deepFn input (?sel ! i) (ws ! i) = (Inr (snd (deepResults res ! i)), ws ! Suc i))"
    by simp
  then have "\<exists>ws. length ws = Suc (length (deepResults res)) \<and> ws ! 0 = w2 \<and>
      ws ! length (deepResults res) = w' \<and>
      (\<forall>i < length (deepResults res).
         deepFn input (?sel ! i) (ws ! i) = (Inr (snd (deepResults res ! i)), ws ! Suc i))"
    unfolding same .
  then obtain ws where W: "length ws = Suc (length (deepResults res)) \<and> ws ! 0 = w2 \<and>
      ws ! length (deepResults res) = w' \<and>
      (\<forall>i < length (deepResults res).
         deepFn input (?sel ! i) (ws ! i) = (Inr (snd (deepResults res ! i)), ws ! Suc i))" ..
  have steps: "\<forall>i < length (deepResults res).
      deepFn input (regions ! i) (ws ! i) = (Inr (snd (deepResults res ! i)), ws ! Suc i)"
  proof (intro allI impI)
    fix i
    assume i: "i < length (deepResults res)"
    then have nth: "?sel ! i = regions ! i" using len by simp
    from W i have "deepFn input (?sel ! i) (ws ! i) = (Inr (snd (deepResults res ! i)), ws ! Suc i)"
      by blast
    then show "deepFn input (regions ! i) (ws ! i) = (Inr (snd (deepResults res ! i)), ws ! Suc i)"
      unfolding nth .
  qed
  have trace: "\<exists>ws. length ws = Suc (length (deepResults res)) \<and> ws ! 0 = w2 \<and>
      ws ! length (deepResults res) = w' \<and>
      (\<forall>i < length (deepResults res).
         deepFn input (regions ! i) (ws ! i) = (Inr (snd (deepResults res ! i)), ws ! Suc i))"
    using W steps by (intro exI [of _ ws]) blast
  show ?thesis
    using res len fsts trace by (intro conjI)
qed

lemma run_no_selector:
  assumes "run m input shallowFn deepFn None w = (Inr res, w')"
  shows "deepResults res = []"
proof -
  have sl: "slice0 [] m = []" by (simp add: slice0_def)
  from assms show ?thesis
    by (auto simp: run_def Let_def sl split: prod.splits sum.splits)
qed

lemma run_cap_one:
  assumes m: "m = 1"
    and sh: "shallowFn input w = (Inr sh, w1)" and sel: "select sh w1 = (Inr [g1, g2, g3], w2)"
    and run: "run m input shallowFn deepFn (Some select) w = (Inr res, w')"
  shows "\<exists>d. deepResults res = [(g1, d)] \<and> deepFn input g1 w2 = (Inr d, w')"
proof -
  have "slice0 [g1, g2, g3] 1 = [g1]" by (simp add: slice0_def)
  with run_selected [OF sh sel run] m
  have "deepLoop deepFn input [g1] [] w2 = (Inr (deepResults res), w')" by simp
  then show ?thesis
    by (auto split: prod.splits sum.splits)
qed

text \<open>
  C8. Whatever the callbacks do, a run invokes \<^verbatim>\<open>shallowFn\<close> exactly once: with the
  invocations of \<^verbatim>\<open>shallowFn\<close> counted, the count is one more after the run, whether it
  returns or throws. When \<^verbatim>\<open>shallowFn\<close> returns \<open>sh\<close>, the selector returns the list
  \<open>regions\<close>, the run returns, and \<open>maxDeepRegions\<close> is not negative: \<open>deepResults\<close> has
  \<open>min (length regions) maxDeepRegions\<close> entries, their regions are the first ones of
  \<open>regions\<close> in order, and entry \<open>i\<close> holds what \<^verbatim>\<open>deepFn(input, regions[i])\<close> returned,
  the calls made one after the other from the world the selector left. With no selector
  \<open>deepResults\<close> is empty. With \<open>maxDeepRegions = 1\<close> and three regions there is one entry,
  for the first region.
\<close>

theorem run_region_cap:
  "fst (snd (run m input (\<lambda>i. counting (shallowFn i)) (\<lambda>i g. uncounted (deepFn i g))
      (map_option (\<lambda>select r. uncounted (select r)) selector) (c, w))) = Suc c \<and>
   (0 \<le> m \<and> shallowFn input w = (Inr sh, w1) \<and> select sh w1 = (Inr regions, w2) \<and>
    run m input shallowFn deepFn (Some select) w = (Inr res, w') \<longrightarrow>
      shallowResult res = sh \<and>
      length (deepResults res) = min (length regions) (nat m) \<and>
      map fst (deepResults res) = take (nat m) regions \<and>
      (\<exists>ws. length ws = Suc (length (deepResults res)) \<and> ws ! 0 = w2 \<and>
            ws ! length (deepResults res) = w' \<and>
            (\<forall>i < length (deepResults res).
               deepFn input (regions ! i) (ws ! i) = (Inr (snd (deepResults res ! i)), ws ! Suc i)))) \<and>
   (run m input shallowFn deepFn None w = (Inr res0, w0) \<longrightarrow> deepResults res0 = []) \<and>
   (m = 1 \<and> shallowFn input w = (Inr sh, w1) \<and> select sh w1 = (Inr [g1, g2, g3], w2) \<and>
    run m input shallowFn deepFn (Some select) w = (Inr res, w') \<longrightarrow>
      (\<exists>d. deepResults res = [(g1, d)] \<and> deepFn input g1 w2 = (Inr d, w')))"
proof (intro conjI impI)
  show "fst (snd (run m input (\<lambda>i. counting (shallowFn i)) (\<lambda>i g. uncounted (deepFn i g))
      (map_option (\<lambda>select r. uncounted (select r)) selector) (c, w))) = Suc c"
    by (rule run_counts_shallow)
next
  assume a: "0 \<le> m \<and> shallowFn input w = (Inr sh, w1) \<and> select sh w1 = (Inr regions, w2) \<and>
      run m input shallowFn deepFn (Some select) w = (Inr res, w')"
  then have a1: "0 \<le> m" and a2: "shallowFn input w = (Inr sh, w1)"
    and a3: "select sh w1 = (Inr regions, w2)"
    and a4: "run m input shallowFn deepFn (Some select) w = (Inr res, w')"
    by blast+
  note capped = run_capped [OF a1 a2 a3 a4]
  show "shallowResult res = sh"
    by (rule capped [THEN conjunct1])
  show "length (deepResults res) = min (length regions) (nat m)"
    by (rule capped [THEN conjunct2, THEN conjunct1])
  show "map fst (deepResults res) = take (nat m) regions"
    by (rule capped [THEN conjunct2, THEN conjunct2, THEN conjunct1])
  show "\<exists>ws. length ws = Suc (length (deepResults res)) \<and> ws ! 0 = w2 \<and>
      ws ! length (deepResults res) = w' \<and>
      (\<forall>i < length (deepResults res).
         deepFn input (regions ! i) (ws ! i) = (Inr (snd (deepResults res ! i)), ws ! Suc i))"
    by (rule capped [THEN conjunct2, THEN conjunct2, THEN conjunct2])
next
  assume "run m input shallowFn deepFn None w = (Inr res0, w0)"
  then show "deepResults res0 = []" by (rule run_no_selector)
next
  assume "m = 1 \<and> shallowFn input w = (Inr sh, w1) \<and> select sh w1 = (Inr [g1, g2, g3], w2) \<and>
      run m input shallowFn deepFn (Some select) w = (Inr res, w')"
  then have b1: "m = 1" and b2: "shallowFn input w = (Inr sh, w1)"
    and b3: "select sh w1 = (Inr [g1, g2, g3], w2)"
    and b4: "run m input shallowFn deepFn (Some select) w = (Inr res, w')"
    by blast+
  show "\<exists>d. deepResults res = [(g1, d)] \<and> deepFn input g1 w2 = (Inr d, w')"
    by (rule run_cap_one [OF b1 b2 b3 b4])
qed

theorem run_region_cap_witness:
  "fst (snd (run 1 ''in'' (\<lambda>i. counting (sampleShallow i)) (\<lambda>i g. uncounted (sampleDeep i g))
      (map_option (\<lambda>select r. uncounted (select r)) (Some sampleSelect)) (0, 0))) = Suc 0 \<and>
   (0 :: int) \<le> 1 \<and>
   sampleShallow ''in'' 0 = (Inr 2, 1) \<and>
   sampleSelect 2 1 = (Inr [''r1'', ''r22'', ''r333''], 2) \<and>
   run 1 ''in'' sampleShallow sampleDeep (Some sampleSelect) 0 =
     (Inr \<lparr>shallowResult = 2, deepResults = [(''r1'', 4)]\<rparr>, 3) \<and>
   length (deepResults \<lparr>shallowResult = 2 :: nat, deepResults = [(''r1'', 4 :: nat)]\<rparr>) =
     min (length [''r1'', ''r22'', ''r333'']) (nat 1) \<and>
   map fst (deepResults \<lparr>shallowResult = 2 :: nat, deepResults = [(''r1'', 4 :: nat)]\<rparr>) =
     take (nat 1) [''r1'', ''r22'', ''r333'']"
proof -
  have h1: "(0 :: int) \<le> 1" by simp
  have h2: "sampleShallow ''in'' 0 = (Inr 2, 1)"
    by (simp add: sampleShallow_def)
  have h3: "sampleSelect 2 1 = (Inr [''r1'', ''r22'', ''r333''], 2)"
    by (simp add: sampleSelect_def)
  have h4: "run 1 ''in'' sampleShallow sampleDeep (Some sampleSelect) 0 =
      (Inr \<lparr>shallowResult = 2, deepResults = [(''r1'', 4)]\<rparr>, 3)"
    by (simp add: run_def sampleShallow_def sampleSelect_def sampleDeep_def slice0_def)
  note t = run_region_cap [where m = 1 and input = "''in''" and shallowFn = sampleShallow
      and deepFn = sampleDeep and selector = "Some sampleSelect" and c = 0 and w = 0
      and sh = 2 and ?w1.0 = 1 and select = sampleSelect and regions = "[''r1'', ''r22'', ''r333'']"
      and ?w2.0 = 2 and res = "\<lparr>shallowResult = 2, deepResults = [(''r1'', 4)]\<rparr>" and w' = 3]
  from t [THEN conjunct1]
  have once: "fst (snd (run 1 ''in'' (\<lambda>i. counting (sampleShallow i)) (\<lambda>i g. uncounted (sampleDeep i g))
      (map_option (\<lambda>select r. uncounted (select r)) (Some sampleSelect)) (0, 0))) = Suc 0" .
  from t [THEN conjunct2, THEN conjunct1, rule_format, OF conjI [OF h1 conjI [OF h2 conjI [OF h3 h4]]]]
  have "length (deepResults \<lparr>shallowResult = 2 :: nat, deepResults = [(''r1'', 4 :: nat)]\<rparr>) =
      min (length [''r1'', ''r22'', ''r333'']) (nat 1)"
    and "map fst (deepResults \<lparr>shallowResult = 2 :: nat, deepResults = [(''r1'', 4 :: nat)]\<rparr>) =
      take (nat 1) [''r1'', ''r22'', ''r333'']"
    by blast+
  with once h1 h2 h3 h4 show ?thesis by (intro conjI)
qed

end
